theory Spec2Isabelle
  imports Main "HOL-Library.Sublist"
begin

section \<open>Text as Python sees it\<close>

text \<open>
  The generator (\<^verbatim>\<open>src/generate_docs.py\<close>) works on Python \<^verbatim>\<open>str\<close> values. A string is
  modelled as a \<^typ>\<open>string\<close>, each \<^typ>\<open>char\<close> standing for the code point of the same
  number, so the model covers text over the code points 0..255. The character classes below
  are the ones Python 3 has on that range: \<^verbatim>\<open>str.isspace\<close> (used by \<^verbatim>\<open>strip\<close>,
  \<^verbatim>\<open>split()\<close> and the pattern \<^verbatim>\<open>\s\<close>), the word characters of \<^verbatim>\<open>\w\<close> and \<^verbatim>\<open>\b\<close>,
  \<^verbatim>\<open>str.lower\<close> and \<^verbatim>\<open>str.isupper\<close>.
\<close>

abbreviation bslash :: char where "bslash \<equiv> CHR 0x5C"
abbreviation dquote :: char where "dquote \<equiv> CHR 0x22"
abbreviation newline :: char where "newline \<equiv> CHR 0x0A"
abbreviation tab :: char where "tab \<equiv> CHR 0x09"

definition code_point :: "char \<Rightarrow> nat" where
  "code_point c = of_char c"

definition is_space :: "char \<Rightarrow> bool" where
  "is_space c = (let n = code_point c in
     (9 \<le> n \<and> n \<le> 13) \<or> (28 \<le> n \<and> n \<le> 32) \<or> n = 133 \<or> n = 160)"

definition is_ascii_upper :: "char \<Rightarrow> bool" where
  "is_ascii_upper c = (let n = code_point c in 65 \<le> n \<and> n \<le> 90)"

definition is_ascii_lower :: "char \<Rightarrow> bool" where
  "is_ascii_lower c = (let n = code_point c in 97 \<le> n \<and> n \<le> 122)"

definition is_ascii_digit :: "char \<Rightarrow> bool" where
  "is_ascii_digit c = (let n = code_point c in 48 \<le> n \<and> n \<le> 57)"

definition is_latin1_upper :: "char \<Rightarrow> bool" where
  "is_latin1_upper c = (let n = code_point c in 192 \<le> n \<and> n \<le> 222 \<and> n \<noteq> 215)"

definition is_latin1_lower :: "char \<Rightarrow> bool" where
  "is_latin1_lower c = (let n = code_point c in
     n = 170 \<or> n = 181 \<or> n = 186 \<or> (223 \<le> n \<and> n \<le> 255 \<and> n \<noteq> 247))"

definition is_latin1_numeric :: "char \<Rightarrow> bool" where
  "is_latin1_numeric c = (let n = code_point c in
     n = 178 \<or> n = 179 \<or> n = 185 \<or> n = 188 \<or> n = 189 \<or> n = 190)"

definition is_word :: "char \<Rightarrow> bool" where
  "is_word c = (is_ascii_upper c \<or> is_ascii_lower c \<or> is_ascii_digit c \<or> c = CHR ''_''
     \<or> is_latin1_upper c \<or> is_latin1_lower c \<or> is_latin1_numeric c)"

definition is_upper :: "char \<Rightarrow> bool" where
  "is_upper c = (is_ascii_upper c \<or> is_latin1_upper c)"

definition is_lower :: "char \<Rightarrow> bool" where
  "is_lower c = (is_ascii_lower c \<or> is_latin1_lower c)"

definition lower_char :: "char \<Rightarrow> char" where
  "lower_char c = (if is_upper c then char_of (code_point c + 32) else c)"

definition py_lower :: "string \<Rightarrow> string" where
  "py_lower s = map lower_char s"

definition py_isupper :: "string \<Rightarrow> bool" where
  "py_isupper s = (list_ex is_upper s \<and> \<not> list_ex is_lower s)"

definition py_lstrip :: "string \<Rightarrow> string" where
  "py_lstrip s = dropWhile is_space s"

definition py_rstrip :: "string \<Rightarrow> string" where
  "py_rstrip s = rev (dropWhile is_space (rev s))"

definition py_strip :: "string \<Rightarrow> string" where
  "py_strip s = py_rstrip (py_lstrip s)"

text \<open>\<^verbatim>\<open>s.lstrip(':')\<close>: leading occurrences of one character removed.\<close>

definition py_lstrip_char :: "char \<Rightarrow> string \<Rightarrow> string" where
  "py_lstrip_char c s = dropWhile (\<lambda>x. x = c) s"

text \<open>\<^verbatim>\<open>sub in s\<close>: \<^verbatim>\<open>sub\<close> occurs in \<^verbatim>\<open>s\<close> as a contiguous piece.\<close>

fun py_in :: "string \<Rightarrow> string \<Rightarrow> bool" where
  "py_in sub [] = (sub = [])"
| "py_in sub (c # cs) = (prefix sub (c # cs) \<or> py_in sub cs)"

text \<open>
  \<^verbatim>\<open>s.split(sep)\<close> for a one-character separator. The result is never empty
  (\<open>split_on_nonempty\<close> below), so the last case of the inner \<open>case\<close> is never taken.
\<close>

fun split_on :: "char \<Rightarrow> string \<Rightarrow> string list" where
  "split_on sep [] = [[]]"
| "split_on sep (c # cs) =
     (if c = sep then [] # split_on sep cs
      else (case split_on sep cs of
              piece # pieces \<Rightarrow> (c # piece) # pieces
            | [] \<Rightarrow> [[c]]))"

text \<open>\<^verbatim>\<open>sep.join(parts)\<close>.\<close>

fun join_with :: "char \<Rightarrow> string list \<Rightarrow> string" where
  "join_with sep [] = []"
| "join_with sep [l] = l"
| "join_with sep (l # m # ls) = l @ sep # join_with sep (m # ls)"

text \<open>\<^verbatim>\<open>s.replace(c, '')\<close> for a one-character \<^verbatim>\<open>c\<close>.\<close>

definition py_remove :: "char \<Rightarrow> string \<Rightarrow> string" where
  "py_remove c s = filter (\<lambda>x. x \<noteq> c) s"

text \<open>\<^verbatim>\<open>s.split()\<close>: the maximal runs of non-whitespace characters.\<close>

fun split_ws_acc :: "string \<Rightarrow> string \<Rightarrow> string list" where
  "split_ws_acc tok [] = (if tok = [] then [] else [tok])"
| "split_ws_acc tok (c # cs) =
     (if is_space c then (if tok = [] then split_ws_acc [] cs else tok # split_ws_acc [] cs)
      else split_ws_acc (tok @ [c]) cs)"

definition py_split_ws :: "string \<Rightarrow> string list" where
  "py_split_ws s = split_ws_acc [] s"

text \<open>
  \<^verbatim>\<open>s.split(None, 1)\<close>: the first run of non-whitespace characters, then what follows the
  whitespace after it (trailing whitespace kept), when anything does.
\<close>

definition py_split_ws1 :: "string \<Rightarrow> string list" where
  "py_split_ws1 s =
     (let t = py_lstrip s;
          first = takeWhile (\<lambda>c. \<not> is_space c) t;
          remainder = py_lstrip (dropWhile (\<lambda>c. \<not> is_space c) t)
      in if first = [] then [] else if remainder = [] then [first] else [first, remainder])"

section \<open>Response Sanitizer\<close>

text \<open>
  \<^verbatim>\<open>sanitize_json_escapes\<close> scans \<^verbatim>\<open>json_text\<close> with an index \<^verbatim>\<open>i\<close>; the model recurses on
  the rest of the text from \<^verbatim>\<open>i\<close> on. With \<^verbatim>\<open>c\<close> at \<^verbatim>\<open>i\<close>, \<^verbatim>\<open>next_char\<close> at \<^verbatim>\<open>i + 1\<close> and
  \<^verbatim>\<open>rest\<close> the text from \<^verbatim>\<open>i + 2\<close> on, the source's test \<^verbatim>\<open>i + 5 < len(json_text)\<close> is
  \<open>4 \<le> length rest\<close> and \<^verbatim>\<open>json_text[i+2:i+6]\<close> is \<open>take 4 rest\<close>. A backslash that is
  the last character fails the test \<^verbatim>\<open>i + 1 < len(json_text)\<close> and is copied.
\<close>

definition valid_escape_chars :: string where
  "valid_escape_chars =
     [dquote, bslash, CHR ''/'', CHR ''b'', CHR ''f'', CHR ''n'', CHR ''r'', CHR ''t'']"

definition hex_digits :: string where
  "hex_digits = ''0123456789ABCDEFabcdef''"

fun sanitize_json_escapes :: "string \<Rightarrow> string" where
  "sanitize_json_escapes [] = []"
| "sanitize_json_escapes [c] = [c]"
| "sanitize_json_escapes (c # next_char # rest) =
     (if c = bslash then
        (if next_char \<in> set valid_escape_chars then
           [bslash, next_char] @ sanitize_json_escapes rest
         else if next_char = CHR ''u'' \<and> 4 \<le> length rest then
           (let hex_part = take 4 rest in
            if length hex_part = 4 \<and> list_all (\<lambda>h. h \<in> set hex_digits) hex_part then
              [bslash, CHR ''u''] @ hex_part @ sanitize_json_escapes (drop 4 rest)
            else [bslash, bslash, CHR ''u''] @ sanitize_json_escapes rest)
         else [bslash, bslash, next_char] @ sanitize_json_escapes rest)
      else c # sanitize_json_escapes (next_char # rest))"

text \<open>
  What section 4.1 of the specification calls well-formed: every backslash starts one of the
  escapes \<^verbatim>\<open>\" \\ \/ \b \f \n \r \t\<close> or a \<^verbatim>\<open>\u\<close> with four hexadecimal digits.
\<close>

fun well_formed_escapes :: "string \<Rightarrow> bool" where
  "well_formed_escapes [] = True"
| "well_formed_escapes [c] = (c \<noteq> bslash)"
| "well_formed_escapes (c # e # rest) =
     (if c = bslash then
        (if e \<in> set valid_escape_chars then well_formed_escapes rest
         else e = CHR ''u'' \<and> 4 \<le> length rest
              \<and> list_all (\<lambda>h. h \<in> set hex_digits) (take 4 rest)
              \<and> well_formed_escapes (drop 4 rest))
      else well_formed_escapes (e # rest))"

text \<open>The number of backslashes the text ends with.\<close>

definition trailing_backslashes :: "string \<Rightarrow> nat" where
  "trailing_backslashes s = length (takeWhile (\<lambda>c. c = bslash) (rev s))"

section \<open>Regular expressions of the Anchor Resolver\<close>

text \<open>
  \<^verbatim>\<open>soft_match_anchor\<close> builds five patterns and asks \<^verbatim>\<open>re.search\<close> whether one occurs in a
  line. The patterns use literal text (\<^verbatim>\<open>re.escape\<close>), \<^verbatim>\<open>\s+\<close>, \<^verbatim>\<open>\s*\<close>, \<^verbatim>\<open>\w+\<close>, a
  character set, \<^verbatim>\<open>?\<close>, \<^verbatim>\<open>|\<close>, \<^verbatim>\<open>\b\<close> and \<^verbatim>\<open>^\<close>. A position in the line is the pair of the
  character before it (\<open>None\<close> at the start) and the text from it on; \<open>rx_ends r pos\<close>
  lists the positions at which an occurrence of \<open>r\<close> starting at \<open>pos\<close> can end, and
  \<open>re_search\<close> is true when an occurrence starts at some position, which is when Python's
  \<^verbatim>\<open>re.search\<close> returns a match object.
\<close>

datatype cclass = Space | WordChar

fun in_class :: "cclass \<Rightarrow> char \<Rightarrow> bool" where
  "in_class Space c = is_space c"
| "in_class WordChar c = is_word c"

datatype rx =
    Lit string
  | OneOf string
  | Plus cclass
  | Star cclass
  | Opt rx
  | Alt rx rx
  | Seq rx rx
  | WordB
  | Bol

type_synonym position = "char option \<times> string"

definition after :: "char option \<Rightarrow> string \<Rightarrow> char option" where
  "after p w = (if w = [] then p else Some (last w))"

definition word_before :: "position \<Rightarrow> bool" where
  "word_before pos = (case fst pos of None \<Rightarrow> False | Some c \<Rightarrow> is_word c)"

definition word_after :: "position \<Rightarrow> bool" where
  "word_after pos = (case snd pos of [] \<Rightarrow> False | c # _ \<Rightarrow> is_word c)"

definition advance :: "position \<Rightarrow> nat \<Rightarrow> position" where
  "advance pos n = (after (fst pos) (take n (snd pos)), drop n (snd pos))"

fun rx_ends :: "rx \<Rightarrow> position \<Rightarrow> position list" where
  "rx_ends (Lit t) pos = (if prefix t (snd pos) then [advance pos (length t)] else [])"
| "rx_ends (OneOf cs) pos =
     (case snd pos of [] \<Rightarrow> [] | c # _ \<Rightarrow> if c \<in> set cs then [advance pos 1] else [])"
| "rx_ends (Plus k) pos =
     map (advance pos) [1 ..< Suc (length (takeWhile (in_class k) (snd pos)))]"
| "rx_ends (Star k) pos =
     map (advance pos) [0 ..< Suc (length (takeWhile (in_class k) (snd pos)))]"
| "rx_ends (Opt r) pos = rx_ends r pos @ [pos]"
| "rx_ends (Alt r1 r2) pos = rx_ends r1 pos @ rx_ends r2 pos"
| "rx_ends (Seq r1 r2) pos = concat (map (rx_ends r2) (rx_ends r1 pos))"
| "rx_ends WordB pos = (if word_before pos \<noteq> word_after pos then [pos] else [])"
| "rx_ends Bol pos = (if fst pos = None then [pos] else [])"

fun search_from :: "rx \<Rightarrow> position \<Rightarrow> bool" where
  "search_from r (p, []) = (rx_ends r (p, []) \<noteq> [])"
| "search_from r (p, c # cs) = (rx_ends r (p, c # cs) \<noteq> [] \<or> search_from r (Some c, cs))"

definition re_search :: "rx \<Rightarrow> string \<Rightarrow> bool" where
  "re_search r line = search_from r (None, line)"

fun seq_of :: "rx list \<Rightarrow> rx" where
  "seq_of [] = Lit []"
| "seq_of [r] = r"
| "seq_of (r # rs) = Seq r (seq_of rs)"


section \<open>Anchor Resolver\<close>

datatype py_error = ReError | ValueError

text \<open>
  Python's own \<^verbatim>\<open>re.search(pattern, line)\<close> for a pattern given as text. The standard library
  is not part of the repository, so it is a parameter: \<open>Inl ReError\<close> when the pattern does
  not compile, else whether a match is found. Only one pattern of \<^verbatim>\<open>soft_match_anchor\<close> pastes
  text into a pattern without \<^verbatim>\<open>re.escape\<close>: the accessor keyword of the third pattern. When
  that keyword has none of the characters special in a pattern it stands for itself and the
  model above is used; the parameter is consulted for the others.
\<close>

type_synonym raw_search = "string \<Rightarrow> string \<Rightarrow> py_error + bool"

definition regex_special :: string where
  "regex_special = [bslash] @ ''.^$*+?{}[]|()''"

text \<open>\<^verbatim>\<open>re.escape\<close> of Python 3.7 and later.\<close>

definition re_escape_chars :: string where
  "re_escape_chars = ''()[]{}?*+-|^$'' @ [bslash] @ ''.&~# '' @ [tab, newline, CHR 0x0D, CHR 0x0B, CHR 0x0C]"

definition re_escape :: "string \<Rightarrow> string" where
  "re_escape s = concat (map (\<lambda>c. if c \<in> set re_escape_chars then [bslash, c] else [c]) s)"

text \<open>The optional receiver of the second pattern: \<^verbatim>\<open>(?:(?:self|\w+)\.)?\<close>.\<close>

definition qualifier_rx :: rx where
  "qualifier_rx = Opt (Seq (Alt (Lit ''self'') (Plus WordChar)) (Lit ''.''))"

definition soft_match_anchor :: "raw_search \<Rightarrow> string \<Rightarrow> string \<Rightarrow> py_error + bool" where
  "soft_match_anchor raw anchor line =
     (let anchor_stripped = py_strip anchor in
      if prefix ''class '' anchor_stripped \<or> prefix ''module '' anchor_stripped then
        (case py_split_ws1 anchor_stripped of
           [keyword, name0] \<Rightarrow>
             (let name = py_strip (hd (split_on CHR ''('' name0)) in
              Inr (re_search (seq_of [Bol, Star Space, Lit keyword, Plus Space, Lit name, WordB]) line))
         | _ \<Rightarrow> Inl ValueError)
      else if prefix ''def '' anchor_stripped then
        (let method_sig = py_strip (hd (split_on CHR ''('' (drop 4 anchor_stripped)));
             method_name = (if CHR ''.'' \<in> set method_sig
                            then last (split_on CHR ''.'' method_sig) else method_sig);
             pattern = (if method_name = ''[]''
                        then seq_of [WordB, Lit ''def'', Plus Space, qualifier_rx, Lit ''[]'']
                        else seq_of [WordB, Lit ''def'', Plus Space, qualifier_rx,
                                     Lit method_name, Opt (OneOf ''?!='')])
         in if re_search pattern line then Inr True
            else if py_in (''def '' @ method_sig) line then Inr True
            else Inr False)
      else if prefix ''attr_'' anchor_stripped then
        (let parts = py_split_ws anchor_stripped;
             attr_type = hd parts
         in if length parts > 1 then
              (let symbol = py_lstrip_char CHR '':'' (parts ! 1) in
               if list_all (\<lambda>c. c \<notin> set regex_special) attr_type
               then Inr (re_search (seq_of [Lit attr_type, Plus Space, Lit '':'', Lit symbol, WordB]) line)
               else raw (attr_type @ [bslash] @ ''s+:'' @ re_escape symbol @ [bslash] @ ''b'') line)
            else Inr (py_in attr_type line))
      else if py_isupper (py_strip (py_remove CHR ''='' (py_remove CHR ''_'' anchor_stripped))) then
        (let const_name = py_strip (hd (split_on CHR ''='' anchor_stripped)) in
         Inr (re_search (seq_of [WordB, Lit const_name, Star Space, Lit ''='']) line))
      else if prefix ''@@'' anchor_stripped \<or> prefix ''@'' anchor_stripped then
        (let var_name = py_strip (hd (split_on CHR ''='' (hd (py_split_ws anchor_stripped)))) in
         Inr (re_search (seq_of [Lit var_name, Star Space, Alt (Lit ''='') (Lit ''||='')]) line))
      else
        (let anchor_clean = py_strip (hd (split_on CHR ''('' anchor_stripped));
             tokens = py_split_ws anchor_clean
         in if tokens = [] then Inr False
            else Inr (list_all (\<lambda>token. py_in token line) tokens)))"

text \<open>
  The search order of \<^verbatim>\<open>find_insertion_line\<close>: the lines at offsets -5..5 of the expected
  index that exist (offset 0 left out), then every other index of the file, each appended
  unless it is the expected index or already in the order.
\<close>

definition nearby_indices :: "nat \<Rightarrow> int \<Rightarrow> nat list" where
  "nearby_indices len expected_idx =
     map nat (filter (\<lambda>idx. 0 \<le> idx \<and> idx < int len)
        (map (\<lambda>offset. expected_idx + offset) (filter (\<lambda>offset. offset \<noteq> 0) [-5..5])))"

definition search_order :: "nat \<Rightarrow> int \<Rightarrow> nat list" where
  "search_order len expected_idx =
     foldl (\<lambda>order idx. if int idx \<noteq> expected_idx \<and> idx \<notin> set order then order @ [idx] else order)
       (nearby_indices len expected_idx) [0..<len]"

fun search_in_order ::
  "raw_search \<Rightarrow> string list \<Rightarrow> string \<Rightarrow> nat set \<Rightarrow> nat list \<Rightarrow> py_error + nat option" where
  "search_in_order raw lines anchor inserted_at_lines [] = Inr None"
| "search_in_order raw lines anchor inserted_at_lines (idx # order) =
     (if idx \<notin> inserted_at_lines then
        (case soft_match_anchor raw anchor (lines ! idx) of
           Inl err \<Rightarrow> Inl err
         | Inr True \<Rightarrow> Inr (Some idx)
         | Inr False \<Rightarrow> search_in_order raw lines anchor inserted_at_lines order)
      else search_in_order raw lines anchor inserted_at_lines order)"

text \<open>
  \<^verbatim>\<open>find_insertion_line\<close>: \<open>Inr None\<close> is the source's \<^verbatim>\<open>return None\<close>, \<open>Inl\<close> an exception
  that leaves the function. Every index read by \<open>!\<close> is below the length of \<open>lines\<close>.
\<close>

definition find_insertion_line ::
  "raw_search \<Rightarrow> string list \<Rightarrow> int \<Rightarrow> string \<Rightarrow> nat set \<Rightarrow> py_error + nat option" where
  "find_insertion_line raw lines line_number anchor inserted_at_lines =
     (let expected_idx = line_number - 1 in
      if expected_idx < 0 \<or> expected_idx \<ge> int (length lines) then Inr None
      else if nat expected_idx \<in> inserted_at_lines then Inr None
      else if py_in anchor (lines ! nat expected_idx) then Inr (Some (nat expected_idx))
      else (case soft_match_anchor raw anchor (lines ! nat expected_idx) of
              Inl err \<Rightarrow> Inl err
            | Inr True \<Rightarrow> Inr (Some (nat expected_idx))
            | Inr False \<Rightarrow>
                search_in_order raw lines anchor inserted_at_lines
                  (search_order (length lines) expected_idx)))"

section \<open>Patch Applier\<close>

text \<open>
  An entry of the provider's list. A missing \<^verbatim>\<open>line_number\<close> behaves as 0 and a missing
  \<^verbatim>\<open>anchor\<close> or \<^verbatim>\<open>comment\<close> as the empty string, in the sort key and in the check for
  required fields alike, so the record has no optional field.
\<close>

record directive =
  line_number :: int
  anchor :: string
  indent :: int
  comment :: string

text \<open>The three variables \<^verbatim>\<open>insert_comments\<close> mutates while it loops.\<close>

record pass_state =
  lines :: "string list"
  inserted_at_lines :: "nat set"
  documented_anchors :: "string set"

text \<open>\<^verbatim>\<open>xs.insert(i, x)\<close> for \<open>0 \<le> i\<close>.\<close>

definition list_insert :: "'a list \<Rightarrow> nat \<Rightarrow> 'a \<Rightarrow> 'a list" where
  "list_insert xs i x = take i xs @ x # drop i xs"

fun insert_block :: "string list \<Rightarrow> nat \<Rightarrow> string list \<Rightarrow> string list" where
  "insert_block ls idx [] = ls"
| "insert_block ls idx (comment_line # others) =
     insert_block (list_insert ls idx comment_line) (Suc idx) others"

definition comment_lines_for :: "string \<Rightarrow> string \<Rightarrow> string list" where
  "comment_lines_for anchor_line comment_text =
     (let actual_indent = length anchor_line - length (py_lstrip anchor_line);
          indent_str = replicate actual_indent CHR '' ''
      in map (\<lambda>comment_line. if py_strip comment_line \<noteq> [] then indent_str @ comment_line else [])
           (split_on newline comment_text))"

definition anchor_normalized :: "directive \<Rightarrow> string" where
  "anchor_normalized entry = py_strip (py_lower (py_strip (anchor entry)))"

text \<open>
  The body of the loop up to the insertion: \<open>None\<close> where the source leaves the iteration by
  \<^verbatim>\<open>continue\<close> (a required field missing, a duplicate anchor, no insertion line, or an
  exception, which the \<^verbatim>\<open>except\<close> clause turns into \<^verbatim>\<open>continue\<close> before anything was
  changed), else the index to insert at and the lines to insert.
\<close>

definition placement :: "raw_search \<Rightarrow> pass_state \<Rightarrow> directive \<Rightarrow> (nat \<times> string list) option" where
  "placement raw st entry =
     (let anchor_text = py_strip (anchor entry);
          comment_text = py_strip (comment entry)
      in if line_number entry = 0 \<or> anchor_text = [] \<or> comment_text = [] then None
         else if anchor_normalized entry \<in> documented_anchors st then None
         else (case find_insertion_line raw (lines st) (line_number entry) anchor_text
                      (inserted_at_lines st) of
                 Inl err \<Rightarrow> None
               | Inr None \<Rightarrow> None
               | Inr (Some insert_idx) \<Rightarrow>
                   Some (insert_idx, comment_lines_for (lines st ! insert_idx) comment_text)))"

definition process_entry :: "raw_search \<Rightarrow> pass_state \<Rightarrow> directive \<Rightarrow> pass_state" where
  "process_entry raw st entry =
     (case placement raw st entry of
        None \<Rightarrow> st
      | Some (insert_idx, comment_lines) \<Rightarrow>
          st\<lparr>lines := insert_block (lines st) insert_idx comment_lines,
             inserted_at_lines := insert insert_idx (inserted_at_lines st),
             documented_anchors := insert (anchor_normalized entry) (documented_anchors st)\<rparr>)"

definition sorted_comments :: "directive list \<Rightarrow> directive list" where
  "sorted_comments comments = sort_key (\<lambda>x. - line_number x) comments"

definition initial_state :: "string \<Rightarrow> pass_state" where
  "initial_state original_content =
     \<lparr>lines = split_on newline original_content, inserted_at_lines = {}, documented_anchors = {}\<rparr>"

definition insert_comments :: "raw_search \<Rightarrow> string \<Rightarrow> directive list \<Rightarrow> string" where
  "insert_comments raw original_content comments =
     (if comments = [] then original_content
      else join_with newline
             (lines (foldl (process_entry raw) (initial_state original_content)
                       (sorted_comments comments))))"

text \<open>
  The entries the loop applies, in the order it applies them, each with the index it was
  inserted at and the lines inserted for it. This list is not in the source; it names what
  the claims call the successfully applied directives and the inserted blocks.
\<close>

fun applied_from ::
  "raw_search \<Rightarrow> pass_state \<Rightarrow> directive list \<Rightarrow> (directive \<times> nat \<times> string list) list" where
  "applied_from raw st [] = []"
| "applied_from raw st (entry # entries) =
     (case placement raw st entry of
        None \<Rightarrow> applied_from raw st entries
      | Some p \<Rightarrow> (entry, p) # applied_from raw (process_entry raw st entry) entries)"

definition applied :: "raw_search \<Rightarrow> string \<Rightarrow> directive list \<Rightarrow> (directive \<times> nat \<times> string list) list" where
  "applied raw original_content comments =
     applied_from raw (initial_state original_content) (sorted_comments comments)"








text \<open>
  A stand-in for the library's \<^verbatim>\<open>re.search\<close> in the worked examples below: it rejects every
  pattern. No example reaches it.
\<close>

definition no_raw_search :: raw_search where
  "no_raw_search = (\<lambda>pattern line. Inl ReError)"

text \<open>
  What the second pattern of \<^verbatim>\<open>soft_match_anchor\<close>,
  \<^verbatim>\<open>\bdef\s+(?:(?:self|\w+)\.)?NAME[?!=]?\<close>, finds in a line, written without the matcher:
  somewhere in the line, not directly after a word character, stands \<^verbatim>\<open>def\<close>, then
  whitespace, then optionally a receiver (word characters) and a dot, then the text
  \<^verbatim>\<open>NAME\<close>, then optionally one of \<^verbatim>\<open>? ! =\<close>, then anything. This describes the pattern of
  the code, not the sentence of the specification.
\<close>

definition def_pattern_occurs :: "string \<Rightarrow> string \<Rightarrow> bool" where
  "def_pattern_occurs name line =
     (\<exists>before ws qualifier trailing rest.
        line = before @ ''def'' @ ws @ qualifier @ name @ trailing @ rest
        \<and> (before = [] \<or> \<not> is_word (last before))
        \<and> ws \<noteq> [] \<and> list_all is_space ws
        \<and> (qualifier = [] \<or> (\<exists>receiver. receiver \<noteq> [] \<and> list_all is_word receiver
                                   \<and> qualifier = receiver @ ''.''))
        \<and> (trailing = [] \<or> trailing = ''?'' \<or> trailing = ''!'' \<or> trailing = ''=''))"

text \<open>What can follow the whitespace after def: an optional receiver with its dot, then the name.\<close>

definition name_at :: "string \<Rightarrow> string \<Rightarrow> bool" where
  "name_at name s \<longleftrightarrow>
     (\<exists>qualifier rest. s = qualifier @ name @ rest
        \<and> (qualifier = [] \<or> (\<exists>receiver. receiver \<noteq> [] \<and> list_all is_word receiver
                                   \<and> qualifier = receiver @ ''.'')))"

text \<open>
  Section 4.3 of the specification on an anchor \<^verbatim>\<open>def name\<close>: the line contains a definition
  of that bare name, with an optional receiver qualifier and the same optional trailing
  character. The bare name carries the anchor's trailing \<^verbatim>\<open>?\<close>, \<^verbatim>\<open>!\<close> or \<^verbatim>\<open>=\<close> when it has
  one, and the method defined on the line has that name and no other: after the name comes
  no further character of a method name (a word character or one of \<^verbatim>\<open>? ! =\<close>).
  \<open>occurs_delimited\<close> is the test, by a scan, that the name occurs somewhere with such an
  end.
\<close>

definition is_name_char :: "char \<Rightarrow> bool" where
  "is_name_char c = (is_word c \<or> c \<in> set ''?!='')"

definition name_ends :: "string \<Rightarrow> bool" where
  "name_ends rest = (case rest of [] \<Rightarrow> True | c # _ \<Rightarrow> \<not> is_name_char c)"

definition defines_method :: "string \<Rightarrow> string \<Rightarrow> bool" where
  "defines_method name line =
     (\<exists>before ws qualifier rest.
        line = before @ ''def'' @ ws @ qualifier @ name @ rest
        \<and> (before = [] \<or> \<not> is_word (last before))
        \<and> ws \<noteq> [] \<and> list_all is_space ws
        \<and> (qualifier = [] \<or> (\<exists>receiver. receiver \<noteq> [] \<and> list_all is_word receiver
                                   \<and> qualifier = receiver @ ''.''))
        \<and> name_ends rest)"

fun occurs_delimited :: "string \<Rightarrow> string \<Rightarrow> bool" where
  "occurs_delimited name [] = (name = [])"
| "occurs_delimited name (c # cs) =
     ((prefix name (c # cs) \<and> name_ends (drop (length name) (c # cs))) \<or> occurs_delimited name cs)"

text \<open>The signature and the bare method name \<^verbatim>\<open>soft_match_anchor\<close> takes from the anchor.\<close>

definition method_signature :: "string \<Rightarrow> string" where
  "method_signature anchor_text = py_strip (hd (split_on CHR ''('' (drop 4 (py_strip anchor_text))))"

definition bare_method_name :: "string \<Rightarrow> string" where
  "bare_method_name anchor_text = last (split_on CHR ''.'' (method_signature anchor_text))"

section \<open>Content-Hash Manifest\<close>

text \<open>
  A path is the list of its components; \<^verbatim>\<open>str(file_path)\<close>, the manifest's key, is the path
  itself. The file system maps the paths of the regular files to their text. What the
  standard library and the operating system supply is collected in \<open>platform\<close>:
  \<^verbatim>\<open>hashlib.sha256(text.encode('utf-8')).hexdigest()\<close>, \<^verbatim>\<open>Path.resolve\<close>,
  \<^verbatim>\<open>datetime.now().isoformat()\<close>, \<^verbatim>\<open>json.dump\<close> into the opened manifest file
  (\<open>None\<close> when that raises, which \<^verbatim>\<open>save_manifest\<close> logs and swallows), and
  \<^verbatim>\<open>json.load\<close> of the manifest file's text (\<open>None\<close> when that raises).
\<close>

type_synonym path = "string list"

type_synonym file_system = "path \<rightharpoonup> string"

record manifest_entry =
  timestamp :: string
  provider :: string
  content_hash :: "string option"
  file_name :: string

record manifest =
  processed_files :: "(path \<rightharpoonup> manifest_entry) option"
  failed_files :: "path list option"
  created :: "string option"

record platform =
  sha256_hexdigest :: "string \<Rightarrow> string"
  resolve :: "path \<Rightarrow> path"
  now :: string
  json_dump :: "manifest \<Rightarrow> string option"
  json_load :: "string \<Rightarrow> manifest option"

record generator =
  provider_name :: string
  incremental :: bool
  output_structure :: string
  source_root :: "path option"
  output_dir :: path
  manifest :: manifest

definition path_name :: "path \<Rightarrow> string" where
  "path_name p = (if p = [] then [] else last p)"

text \<open>\<^verbatim>\<open>p.relative_to(root)\<close>: \<open>None\<close> is the \<^verbatim>\<open>ValueError\<close>.\<close>

definition relative_to :: "path \<Rightarrow> path \<Rightarrow> path option" where
  "relative_to p root = (if prefix root p then Some (drop (length root) p) else None)"

definition get_output_file_path :: "platform \<Rightarrow> generator \<Rightarrow> path \<Rightarrow> path" where
  "get_output_file_path os g file_path =
     (if output_structure g = ''mirror'' \<and> source_root g \<noteq> None then
        (case relative_to (resolve os file_path) (resolve os (the (source_root g))) of
           Some relative_path \<Rightarrow> output_dir g @ [''documented''] @ relative_path
         | None \<Rightarrow> output_dir g @ [''documented'', path_name file_path])
      else output_dir g @ [''documented'', path_name file_path])"

definition yard_tags :: "string list" where
  "yard_tags = [''@param'', ''@return'', ''@example'', ''@note'', ''@see'', ''@yield'']"

definition keeps_line :: "string \<Rightarrow> bool" where
  "keeps_line line =
     (let stripped = py_strip line in
      if prefix ''#'' stripped \<and> list_ex (\<lambda>tag. py_in tag stripped) yard_tags then False
      else if prefix ''#'' stripped \<and> length stripped > 1 \<and> stripped ! 1 = CHR '' '' then
        (prefix ''#!'' stripped \<or> py_in ''coding:'' stripped \<or> py_in ''encoding:'' stripped)
      else True)"

definition code_content :: "string \<Rightarrow> string" where
  "code_content content = join_with newline (filter keeps_line (split_on newline content))"

definition compute_code_hash :: "platform \<Rightarrow> string \<Rightarrow> string" where
  "compute_code_hash os content = take 16 (sha256_hexdigest os (code_content content))"

definition manifest_processed :: "manifest \<Rightarrow> (path \<rightharpoonup> manifest_entry)" where
  "manifest_processed m = (case processed_files m of None \<Rightarrow> Map.empty | Some d \<Rightarrow> d)"



definition manifest_file :: "generator \<Rightarrow> path" where
  "manifest_file g = output_dir g @ [''manifest.json'']"

definition save_manifest :: "platform \<Rightarrow> generator \<Rightarrow> file_system \<Rightarrow> file_system" where
  "save_manifest os g fs =
     (case json_dump os (manifest g) of
        None \<Rightarrow> fs
      | Some text \<Rightarrow> fs(manifest_file g \<mapsto> text))"





text \<open>
  \<^verbatim>\<open>mark_file_processed(file_path, success, content)\<close>: \<open>content\<close> is \<open>None\<close> for the
  default; \<^verbatim>\<open>if content\<close> holds for a non-empty string.
\<close>

definition mark_file_processed ::
  "platform \<Rightarrow> generator \<Rightarrow> file_system \<Rightarrow> path \<Rightarrow> bool \<Rightarrow> string option \<Rightarrow> generator \<times> file_system" where
  "mark_file_processed os g fs file_path success content =
     (let m = manifest g;
          m' = (if success then
                  (let new_hash =
                         (if content \<noteq> None \<and> content \<noteq> Some [] then
                            Some (compute_code_hash os (the content))
                          else (case fs file_path of
                                  Some text \<Rightarrow> Some (compute_code_hash os text)
                                | None \<Rightarrow> None))
                   in m\<lparr>processed_files := Some ((manifest_processed m)(file_path \<mapsto>
                          \<lparr>timestamp = now os, provider = provider_name g,
                           content_hash = new_hash, file_name = path_name file_path\<rparr>))\<rparr>)
                else
                  (let failed = (case failed_files m of None \<Rightarrow> [] | Some l \<Rightarrow> l)
                   in m\<lparr>failed_files :=
                          Some (if file_path \<in> set failed then failed else failed @ [file_path])\<rparr>));
          g' = g\<lparr>manifest := m'\<rparr>
      in (g', save_manifest os g' fs))"

text \<open>
  The branch of \<^verbatim>\<open>_process_single_file\<close> (and of the sequential loop) taken when
  \<^verbatim>\<open>process_file\<close> returned the documented text: write it to the output file, then mark the
  file processed.
\<close>

definition save_documented ::
  "platform \<Rightarrow> generator \<Rightarrow> file_system \<Rightarrow> path \<Rightarrow> string \<Rightarrow> generator \<times> file_system" where
  "save_documented os g fs file_path result =
     mark_file_processed os g (fs(get_output_file_path os g file_path \<mapsto> result)) file_path True None"

text \<open>
  A platform for the worked examples: the digest is the text itself, and the manifest file
  is written and read for manifests that hold at most the one file \<^verbatim>\<open>a.rb\<close>, as the hash
  recorded for it.
\<close>

definition example_dump :: "manifest \<Rightarrow> string option" where
  "example_dump m =
     (case manifest_processed m [''a.rb''] of
        None \<Rightarrow> Some ''{}''
      | Some stored_info \<Rightarrow>
          (case content_hash stored_info of
             None \<Rightarrow> Some ''{}''
           | Some h \<Rightarrow> Some (''a.rb='' @ h)))"

definition example_load :: "string \<Rightarrow> manifest option" where
  "example_load text =
     (if prefix ''a.rb='' text then
        Some \<lparr>processed_files = Some [[''a.rb''] \<mapsto>
                 \<lparr>timestamp = ''t'', provider = ''openai'',
                  content_hash = Some (drop 5 text), file_name = ''a.rb''\<rparr>],
              failed_files = Some [], created = None\<rparr>
      else None)"

definition example_platform :: platform where
  "example_platform =
     \<lparr>sha256_hexdigest = (\<lambda>text. text), resolve = (\<lambda>p. p), now = ''t'',
      json_dump = example_dump, json_load = example_load\<rparr>"

definition example_generator :: generator where
  "example_generator =
     \<lparr>provider_name = ''openai'', incremental = True, output_structure = ''flat'',
      source_root = None, output_dir = [''output'', ''latest''],
      manifest = \<lparr>processed_files = Some Map.empty, failed_files = Some [], created = None\<rparr>\<rparr>"

text \<open>
  The line buffer of a pass is never empty and none of its lines holds a line break; this
  is what makes joining the buffer and splitting the result give the buffer back.
\<close>

definition lines_ok :: "string list \<Rightarrow> bool" where
  "lines_ok ls = (ls \<noteq> [] \<and> (\<forall>l\<in>set ls. newline \<notin> set l))"

text \<open>
  The file of Scenario B: 200 lines, the declaration \<^verbatim>\<open>def foo\<close> on line 11 (index 10) and
  nowhere else.
\<close>

definition drift_file :: "string list" where
  "drift_file = replicate 10 ''x = 1'' @ [''  def foo(a)''] @ replicate 189 ''x = 1''"


section \<open>Properties\<close>

subsection \<open>Response Sanitizer\<close>

lemma takeWhile_all: "\<forall>x\<in>set xs. P x \<Longrightarrow> takeWhile P xs = xs"
  by (induction xs) auto

lemma trailing_all: "\<forall>x\<in>set xs. x = bslash \<Longrightarrow> trailing_backslashes xs = length xs"
  unfolding trailing_backslashes_def by (subst takeWhile_all) auto

lemma trailing_Cons:
  "trailing_backslashes (c # xs) =
     (if c = bslash \<and> (\<forall>x\<in>set xs. x = bslash) then Suc (length xs) else trailing_backslashes xs)"
proof (cases "\<forall>x\<in>set xs. x = bslash")
  case True
  then have "length (takeWhile (\<lambda>c. c = bslash) (rev xs)) = length xs"
    using trailing_all[of xs] by (simp only: trailing_backslashes_def)
  with True show ?thesis
    by (simp add: trailing_backslashes_def takeWhile_append)
next
  case False
  then show ?thesis
    by (simp add: trailing_backslashes_def takeWhile_append) blast
qed

lemma trailing_append_hex:
  "xs \<noteq> [] \<Longrightarrow> last xs \<noteq> bslash \<Longrightarrow> trailing_backslashes (xs @ ys) = trailing_backslashes ys"
proof (induction xs)
  case Nil
  then show ?case by simp
next
  case (Cons a xs)
  show ?case
  proof (cases "xs = []")
    case True
    with Cons.prems show ?thesis by (simp add: trailing_Cons)
  next
    case False
    then have "last xs \<in> set xs" by simp
    moreover have "last xs \<noteq> bslash" using Cons.prems False by simp
    ultimately have "\<not> (\<forall>x\<in>set (xs @ ys). x = bslash)" by auto
    then have "trailing_backslashes ((a # xs) @ ys) = trailing_backslashes (xs @ ys)"
      by (simp only: append_Cons trailing_Cons) simp
    with Cons False show ?thesis by simp
  qed
qed

lemma wf_plain: "c \<noteq> bslash \<Longrightarrow> well_formed_escapes (c # xs) = well_formed_escapes xs"
  by (cases xs) auto

lemma bslash_valid: "bslash \<in> set valid_escape_chars"
  by (simp add: valid_escape_chars_def)

lemma u_not_valid: "CHR ''u'' \<notin> set valid_escape_chars"
  by (simp add: valid_escape_chars_def)

lemma hex_not_bslash: "c \<in> set hex_digits \<Longrightarrow> c \<noteq> bslash"
  by (auto simp: hex_digits_def)


lemma sanitize_well_formed_iff:
  "well_formed_escapes (sanitize_json_escapes s) = even (trailing_backslashes s)"
proof (induction s rule: sanitize_json_escapes.induct)
  case 1
  show ?case by (simp add: trailing_backslashes_def)
next
  case (2 c)
  show ?case by (simp add: trailing_Cons trailing_backslashes_def)
next
  case (3 c n rest)
  show ?case
  proof (cases "c = bslash")
    case False
    with 3 show ?thesis by (simp add: wf_plain trailing_Cons)
  next
    case c: True
    show ?thesis
    proof (cases "n \<in> set valid_escape_chars")
      case True
      have "trailing_backslashes (c # n # rest) = trailing_backslashes rest
            \<or> trailing_backslashes (c # n # rest) = Suc (Suc (trailing_backslashes rest))"
        using c by (cases "\<forall>x\<in>set rest. x = bslash") (simp_all add: trailing_Cons trailing_all)
      moreover have "well_formed_escapes (sanitize_json_escapes (c # n # rest))
            = even (trailing_backslashes rest)"
        using 3 c True by simp
      ultimately show ?thesis by auto
    next
      case nv: False
      then have nb: "n \<noteq> bslash" using bslash_valid by auto
      have tr: "trailing_backslashes (c # n # rest) = trailing_backslashes rest"
        using nb by (simp add: trailing_Cons)
      show ?thesis
      proof (cases "n = CHR ''u'' \<and> 4 \<le> length rest \<and> list_all (\<lambda>h. h \<in> set hex_digits) (take 4 rest)")
        case True
        then have l4: "length (take 4 rest) = 4" by simp
        have ne: "take 4 rest \<noteq> []" using l4 by auto
        have "last (take 4 rest) \<in> set (take 4 rest)" using ne by simp
        then have "last (take 4 rest) \<noteq> bslash"
          using True hex_not_bslash by (auto simp: list_all_iff)
        with ne have "trailing_backslashes (take 4 rest @ drop 4 rest) = trailing_backslashes (drop 4 rest)"
          by (rule trailing_append_hex)
        then have t2: "trailing_backslashes rest = trailing_backslashes (drop 4 rest)" by simp
        have "sanitize_json_escapes (c # n # rest)
              = [bslash, CHR ''u''] @ take 4 rest @ sanitize_json_escapes (drop 4 rest)"
          using True c nv l4 by simp
        then have "well_formed_escapes (sanitize_json_escapes (c # n # rest))
              = well_formed_escapes (sanitize_json_escapes (drop 4 rest))"
          using True u_not_valid l4 by simp
        moreover have "well_formed_escapes (sanitize_json_escapes (drop 4 rest))
              = even (trailing_backslashes (drop 4 rest))"
          using 3(2)[OF c nv _ refl] True l4 by simp
        ultimately show ?thesis using tr t2 by simp
      next
        case False
        then have "sanitize_json_escapes (c # n # rest) = [bslash, bslash, n] @ sanitize_json_escapes rest"
          using c nv by (auto simp: Let_def)
        then have "well_formed_escapes (sanitize_json_escapes (c # n # rest))
              = well_formed_escapes (sanitize_json_escapes rest)"
          using nb bslash_valid by (simp add: wf_plain)
        moreover have "well_formed_escapes (sanitize_json_escapes rest) = even (trailing_backslashes rest)"
          using 3 c nv False by (auto simp: Let_def)
        ultimately show ?thesis using tr by simp
      qed
    qed
  qed
qed

lemma sanitize_subseq: "subseq s (sanitize_json_escapes s)"
proof (induction s rule: sanitize_json_escapes.induct)
  case (3 c n rest)
  have a: "subseq xs ys \<Longrightarrow> subseq (c # n # xs) (bslash # bslash # n # ys)" if "c = bslash" for xs ys
  proof -
    assume "subseq xs ys"
    then have "subseq (n # xs) (n # ys)" by simp
    then have "subseq (n # xs) (bslash # n # ys)" by (rule list_emb_Cons)
    then show ?thesis using that by simp
  qed
  have b: "subseq (take 4 rest @ drop 4 rest) (take 4 rest @ sanitize_json_escapes (drop 4 rest))"
    if "subseq (drop 4 rest) (sanitize_json_escapes (drop 4 rest))"
    using that by (simp only: subseq_append')
  from 3 a b show ?case by (auto simp: Let_def)
qed simp_all

text \<open>
  Claim C4, as the code has it. For every input text the sanitizer never drops a character
  (the input is a subsequence of the output); a backslash followed by a character that is
  neither a valid escape character nor the \<^verbatim>\<open>u\<close> of a \<^verbatim>\<open>\u\<close> with four hexadecimal digits is
  emitted doubled, before that character; a valid escape is copied; and the literal \<^verbatim>\<open>\d\<close>
  becomes \<^verbatim>\<open>\\d\<close>. The output has only well-formed escape sequences exactly when the input
  does not end in an odd number of backslashes: a backslash that is the last character
  scanned is copied as it is.
\<close>

theorem sanitize_contract:
  "subseq s (sanitize_json_escapes s)
   \<and> (well_formed_escapes (sanitize_json_escapes s) \<longleftrightarrow> even (trailing_backslashes s))
   \<and> (e \<notin> set valid_escape_chars
        \<and> \<not> (e = CHR ''u'' \<and> 4 \<le> length rest \<and> list_all (\<lambda>h. h \<in> set hex_digits) (take 4 rest))
      \<longrightarrow> sanitize_json_escapes (bslash # e # rest)
          = bslash # bslash # e # sanitize_json_escapes rest)
   \<and> (e \<in> set valid_escape_chars
      \<longrightarrow> sanitize_json_escapes (bslash # e # rest) = bslash # e # sanitize_json_escapes rest)
   \<and> (4 \<le> length rest \<and> list_all (\<lambda>h. h \<in> set hex_digits) (take 4 rest)
      \<longrightarrow> sanitize_json_escapes (bslash # CHR ''u'' # rest)
          = bslash # CHR ''u'' # take 4 rest @ sanitize_json_escapes (drop 4 rest))
   \<and> (c \<noteq> bslash \<longrightarrow> sanitize_json_escapes (c # t) = c # sanitize_json_escapes t)
   \<and> sanitize_json_escapes [bslash, CHR ''d''] = [bslash, bslash, CHR ''d'']"
proof -
  have plain: "c \<noteq> bslash \<longrightarrow> sanitize_json_escapes (c # t) = c # sanitize_json_escapes t"
    by (cases t) simp_all
  have d: "sanitize_json_escapes [bslash, CHR ''d''] = [bslash, bslash, CHR ''d'']"
    by (simp add: valid_escape_chars_def)
  show ?thesis
    using sanitize_subseq[of s] sanitize_well_formed_iff[of s] plain d u_not_valid
    by (auto simp: Let_def)
qed

text \<open>
  The contract at work on \<^verbatim>\<open>a\d\<close>, \<^verbatim>\<open>\dx\<close>, \<^verbatim>\<open>\nx\<close>, \<^verbatim>\<open>\u00e9!\<close> and \<^verbatim>\<open>ab\<close>.
\<close>

theorem sanitize_contract_witness:
  "subseq (''a'' @ [bslash] @ ''d'') (sanitize_json_escapes (''a'' @ [bslash] @ ''d''))
   \<and> well_formed_escapes (sanitize_json_escapes (''a'' @ [bslash] @ ''d''))
   \<and> sanitize_json_escapes (bslash # CHR ''d'' # ''x'') = bslash # bslash # CHR ''d'' # ''x''
   \<and> sanitize_json_escapes (bslash # CHR ''n'' # ''x'') = bslash # CHR ''n'' # ''x''
   \<and> sanitize_json_escapes (bslash # CHR ''u'' # ''00e9!'') = bslash # CHR ''u'' # ''00e9!''
   \<and> sanitize_json_escapes (CHR ''a'' # ''b'') = ''ab''"
proof -
  have "subseq (''a'' @ [bslash] @ ''d'') (sanitize_json_escapes (''a'' @ [bslash] @ ''d''))
   \<and> (well_formed_escapes (sanitize_json_escapes (''a'' @ [bslash] @ ''d''))
        \<longleftrightarrow> even (trailing_backslashes (''a'' @ [bslash] @ ''d'')))
   \<and> sanitize_json_escapes (bslash # CHR ''d'' # ''x'') = bslash # bslash # CHR ''d'' # sanitize_json_escapes ''x''"
    using sanitize_contract[of "''a'' @ [bslash] @ ''d''" "CHR ''d''" "''x''" "CHR ''a''" "''b''"]
    by (simp add: valid_escape_chars_def)
  moreover have "even (trailing_backslashes (''a'' @ [bslash] @ ''d''))"
    by (simp add: trailing_backslashes_def)
  ultimately show ?thesis
    by (simp add: valid_escape_chars_def hex_digits_def)
qed

text \<open>
  Claim C4 as stated fails on the text that is one backslash: the sanitizer returns it
  unchanged, and a lone backslash is not a well-formed escape sequence.
\<close>

theorem sanitize_lone_backslash_counterexample:
  "sanitize_json_escapes [bslash] = [bslash]
   \<and> \<not> well_formed_escapes (sanitize_json_escapes [bslash])"
  by simp

subsection \<open>Anchor Resolver: bounds and claimed lines\<close>


lemma search_in_order_Some:
  "search_in_order raw ls a claimed order = Inr (Some idx) \<Longrightarrow> idx \<in> set order \<and> idx \<notin> claimed"
  by (induction order) (auto split: if_splits sum.splits bool.splits)

lemma nearby_indices_bound: "i \<in> set (nearby_indices len e) \<Longrightarrow> i < len"
proof -
  assume "i \<in> set (nearby_indices len e)"
  then obtain x where "0 \<le> x \<and> x < int len" "i = nat x"
    unfolding nearby_indices_def set_map set_filter by blast
  then show ?thesis by auto
qed

lemma search_order_step_bound:
  "set (foldl (\<lambda>order idx. if int idx \<noteq> e \<and> idx \<notin> set order then order @ [idx] else order) acc xs)
     \<subseteq> set acc \<union> set xs"
proof (induction xs arbitrary: acc)
  case Nil
  show ?case by simp
next
  case (Cons x xs)
  show ?case using Cons[of "acc @ [x]"] Cons[of acc] by auto
qed

lemma search_order_bound: "i \<in> set (search_order len e) \<Longrightarrow> i < len"
  using search_order_step_bound[of e "nearby_indices len e" "[0..<len]"] nearby_indices_bound[of i len e]
  by (auto simp: search_order_def)

lemma find_insertion_line_Some:
  "find_insertion_line raw ls n a claimed = Inr (Some idx) \<Longrightarrow> idx < length ls \<and> idx \<notin> claimed"
  unfolding find_insertion_line_def Let_def
  by (auto split: if_splits sum.splits bool.splits dest!: search_in_order_Some search_order_bound)

lemma placement_Some:
  "placement raw st d = Some (idx, block) \<Longrightarrow>
     idx < length (lines st) \<and> idx \<notin> inserted_at_lines st
     \<and> anchor_normalized d \<notin> documented_anchors st
     \<and> block = comment_lines_for (lines st ! idx) (py_strip (comment d))"
  unfolding placement_def Let_def
  by (auto split: if_splits sum.splits option.splits dest: find_insertion_line_Some)

lemma process_entry_Some:
  "placement raw st d = Some (idx, block) \<Longrightarrow>
     process_entry raw st d = st\<lparr>lines := insert_block (lines st) idx block,
        inserted_at_lines := insert idx (inserted_at_lines st),
        documented_anchors := insert (anchor_normalized d) (documented_anchors st)\<rparr>"
  by (simp add: process_entry_def)

lemma process_entry_None: "placement raw st d = None \<Longrightarrow> process_entry raw st d = st"
  by (simp add: process_entry_def)

lemma applied_from_indices:
  "distinct (map (\<lambda>x. fst (snd x)) (applied_from raw st es))
   \<and> (\<forall>x \<in> set (applied_from raw st es). fst (snd x) \<notin> inserted_at_lines st)"
proof (induction es arbitrary: st)
  case Nil
  show ?case by simp
next
  case (Cons e es)
  show ?case
  proof (cases "placement raw st e")
    case None
    with Cons show ?thesis by simp
  next
    case (Some p)
    obtain idx block where p: "p = (idx, block)" by (cases p)
    from Some p have ins: "inserted_at_lines (process_entry raw st e) = insert idx (inserted_at_lines st)"
      by (simp add: process_entry_Some)
    from Some p have "idx \<notin> inserted_at_lines st" using placement_Some by blast
    with Cons[of "process_entry raw st e"] Some p ins show ?thesis by auto
  qed
qed

text \<open>
  Claim C5. \<^verbatim>\<open>find_insertion_line\<close> returns not-found when the expected index
  \<^verbatim>\<open>line_number - 1\<close> is outside the line buffer, and when that index is in the claimed set.
  Whenever it returns an index, the index is inside the buffer and not in the claimed set.
  So the loop of \<^verbatim>\<open>insert_comments\<close> only inserts at an index that is not yet claimed and
  claims it, and the indices claimed in one pass are pairwise different.
\<close>

theorem resolver_not_found_and_claimed:
  "(n - 1 < 0 \<or> int (length ls) \<le> n - 1 \<longrightarrow> find_insertion_line raw ls n a claimed = Inr None)
   \<and> (0 \<le> n - 1 \<and> nat (n - 1) \<in> claimed \<longrightarrow> find_insertion_line raw ls n a claimed = Inr None)
   \<and> (find_insertion_line raw ls n a claimed = Inr (Some idx) \<longrightarrow> idx < length ls \<and> idx \<notin> claimed)
   \<and> (placement raw st d = Some (k, block) \<longrightarrow>
         k < length (lines st) \<and> k \<notin> inserted_at_lines st
         \<and> inserted_at_lines (process_entry raw st d) = insert k (inserted_at_lines st))
   \<and> distinct (map (\<lambda>x. fst (snd x)) (applied raw original ds))"
proof -
  have 1: "n - 1 < 0 \<or> int (length ls) \<le> n - 1 \<longrightarrow> find_insertion_line raw ls n a claimed = Inr None"
    by (auto simp: find_insertion_line_def)
  have 2: "0 \<le> n - 1 \<and> nat (n - 1) \<in> claimed \<longrightarrow> find_insertion_line raw ls n a claimed = Inr None"
    by (simp add: find_insertion_line_def Let_def)
  have 3: "find_insertion_line raw ls n a claimed = Inr (Some idx) \<longrightarrow> idx < length ls \<and> idx \<notin> claimed"
    using find_insertion_line_Some by blast
  have 4: "placement raw st d = Some (k, block) \<longrightarrow>
         k < length (lines st) \<and> k \<notin> inserted_at_lines st
         \<and> inserted_at_lines (process_entry raw st d) = insert k (inserted_at_lines st)"
    using placement_Some[of raw st d k block] by (auto simp: process_entry_Some)
  have 5: "distinct (map (\<lambda>x. fst (snd x)) (applied raw original ds))"
    using applied_from_indices by (simp add: applied_def)
  from 1 2 3 4 5 show ?thesis by blast
qed

text \<open>
  On the buffer of the two lines \<^verbatim>\<open>a\<close> and \<^verbatim>\<open>  def foo\<close>: line numbers 5 and 0 are out of
  bounds, line 2 is claimed in the third case, and line number 1 drifts to index 1, which
  the loop then claims.
\<close>

theorem resolver_not_found_and_claimed_witness:
  "find_insertion_line no_raw_search [''a'', ''  def foo''] 5 ''def foo'' {} = Inr None
   \<and> find_insertion_line no_raw_search [''a'', ''  def foo''] 0 ''def foo'' {} = Inr None
   \<and> find_insertion_line no_raw_search [''a'', ''  def foo''] 2 ''def foo'' {1} = Inr None
   \<and> find_insertion_line no_raw_search [''a'', ''  def foo''] 1 ''def foo'' {} = Inr (Some 1)
   \<and> (1::nat) < length [''a'', ''  def foo''] \<and> (1::nat) \<notin> {}
   \<and> inserted_at_lines (process_entry no_raw_search
        \<lparr>lines = [''a'', ''  def foo''], inserted_at_lines = {}, documented_anchors = {}\<rparr>
        \<lparr>line_number = 1, anchor = ''def foo'', indent = 0, comment = ''# doc''\<rparr>) = {1}"
proof -
  let ?ls = "[''a'', ''  def foo'']"
  let ?st = "\<lparr>lines = ?ls, inserted_at_lines = {}, documented_anchors = {}\<rparr>"
  let ?d = "\<lparr>line_number = 1, anchor = ''def foo'', indent = 0, comment = ''# doc''\<rparr>"
  have found: "find_insertion_line no_raw_search ?ls 1 ''def foo'' {} = Inr (Some 1)"
    by code_simp
  have placed: "placement no_raw_search ?st ?d = Some (1, [''  # doc''])"
    by code_simp
  have "find_insertion_line no_raw_search ?ls 5 ''def foo'' {} = Inr None"
    using resolver_not_found_and_claimed[where n=5 and ls="?ls"] by simp
  moreover have "find_insertion_line no_raw_search ?ls 0 ''def foo'' {} = Inr None"
    using resolver_not_found_and_claimed[where n=0 and ls="?ls"] by simp
  moreover have "find_insertion_line no_raw_search ?ls 2 ''def foo'' {1} = Inr None"
    using resolver_not_found_and_claimed[where n=2 and ls="?ls" and claimed="{1}"] by simp
  moreover have "(1::nat) < length ?ls \<and> (1::nat) \<notin> {}
     \<and> inserted_at_lines (process_entry no_raw_search ?st ?d) = {1}"
    using resolver_not_found_and_claimed[where n=1 and ls="?ls" and raw=no_raw_search and a="''def foo''"
        and claimed="{}" and idx=1 and st="?st" and d="?d" and k=1 and block="[''  # doc'']"]
      found placed by simp
  ultimately show ?thesis using found by simp
qed

subsection \<open>Splitting and joining lines\<close>

lemma split_on_nonempty: "split_on sep s \<noteq> []"
  by (induction s) (auto split: list.splits)

lemma split_on_Cons [simp]:
  "split_on sep (c # cs) =
     (if c = sep then [] # split_on sep cs
      else (c # hd (split_on sep cs)) # tl (split_on sep cs))"
  using split_on_nonempty[of sep cs] by (cases "split_on sep cs") auto

declare split_on.simps(2) [simp del]

lemma split_on_free: "sep \<notin> set l \<Longrightarrow> split_on sep l = [l]"
  by (induction l) auto

lemma split_on_append: "sep \<notin> set l \<Longrightarrow> split_on sep (l @ sep # r) = l # split_on sep r"
  by (induction l) auto

lemma split_on_join:
  "xs \<noteq> [] \<Longrightarrow> \<forall>x\<in>set xs. sep \<notin> set x \<Longrightarrow> split_on sep (join_with sep xs) = xs"
  by (induction sep xs rule: join_with.induct) (auto simp: split_on_free split_on_append)

lemma split_on_parts_free: "x \<in> set (split_on sep s) \<Longrightarrow> sep \<notin> set x"
proof (induction s arbitrary: x)
  case Nil
  then show ?case by simp
next
  case (Cons c s)
  have ne: "split_on sep s \<noteq> []" by (rule split_on_nonempty)
  then have hd_in: "hd (split_on sep s) \<in> set (split_on sep s)" by simp
  have tl_in: "\<And>y. y \<in> set (tl (split_on sep s)) \<Longrightarrow> y \<in> set (split_on sep s)"
    using ne by (auto dest: list.set_sel(2))
  show ?case
  proof (cases "c = sep")
    case True
    with Cons show ?thesis by auto
  next
    case False
    with Cons.prems have "x = c # hd (split_on sep s) \<or> x \<in> set (tl (split_on sep s))" by simp
    then show ?thesis using Cons.IH hd_in tl_in False by auto
  qed
qed



subsection \<open>Content-Hash Manifest\<close>

lemma mark_success_manifest:
  "manifest (fst (mark_file_processed os g fs p True c)) =
     (manifest g)\<lparr>processed_files := Some ((manifest_processed (manifest g))(p \<mapsto>
        \<lparr>timestamp = now os, provider = provider_name g,
         content_hash = (if c \<noteq> None \<and> c \<noteq> Some [] then Some (compute_code_hash os (the c))
                         else (case fs p of Some text \<Rightarrow> Some (compute_code_hash os text) | None \<Rightarrow> None)),
         file_name = path_name p\<rparr>))\<rparr>"
  by (simp add: mark_file_processed_def Let_def)

lemma mark_failure_manifest:
  "manifest (fst (mark_file_processed os g fs p False c)) =
     (manifest g)\<lparr>failed_files :=
        Some (let failed = (case failed_files (manifest g) of None \<Rightarrow> [] | Some l \<Rightarrow> l)
              in if p \<in> set failed then failed else failed @ [p])\<rparr>"
  by (simp add: mark_file_processed_def Let_def)

text \<open>
  Claim C10. Marking a file processed with \<^verbatim>\<open>success=True\<close> leaves \<^verbatim>\<open>failed_files\<close> (and
  every other key of the manifest) as it was and changes \<^verbatim>\<open>processed_files\<close> at the marked
  path only; so a path listed in \<^verbatim>\<open>failed_files\<close> from an earlier attempt stays listed
  after it succeeds. Marking with \<^verbatim>\<open>success=False\<close> leaves \<^verbatim>\<open>processed_files\<close> as it was and
  appends the path to \<^verbatim>\<open>failed_files\<close> unless it is already there. Nothing of the generator
  but its manifest changes.
\<close>

theorem mark_file_processed_frame:
  "failed_files (manifest (fst (mark_file_processed os g fs p True c))) = failed_files (manifest g)
   \<and> created (manifest (fst (mark_file_processed os g fs p True c))) = created (manifest g)
   \<and> manifest_processed (manifest (fst (mark_file_processed os g fs p True c))) p \<noteq> None
   \<and> (q \<noteq> p \<longrightarrow> manifest_processed (manifest (fst (mark_file_processed os g fs p True c))) q
                    = manifest_processed (manifest g) q)
   \<and> (failed_files (manifest g) = Some failed \<and> p \<in> set failed
        \<longrightarrow> failed_files (manifest (fst (mark_file_processed os g fs p True c))) = Some failed)
   \<and> processed_files (manifest (fst (mark_file_processed os g fs p False c))) = processed_files (manifest g)
   \<and> created (manifest (fst (mark_file_processed os g fs p False c))) = created (manifest g)
   \<and> failed_files (manifest (fst (mark_file_processed os g fs p False c)))
       = Some (let failed = (case failed_files (manifest g) of None \<Rightarrow> [] | Some l \<Rightarrow> l)
               in if p \<in> set failed then failed else failed @ [p])
   \<and> (\<forall>success. fst (mark_file_processed os g fs p success c)
         = g\<lparr>manifest := manifest (fst (mark_file_processed os g fs p success c))\<rparr>)"
proof -
  have a: "\<forall>success. fst (mark_file_processed os g fs p success c)
         = g\<lparr>manifest := manifest (fst (mark_file_processed os g fs p success c))\<rparr>"
    by (simp add: mark_file_processed_def Let_def)
  show ?thesis
    unfolding mark_success_manifest mark_failure_manifest
    using a by (simp add: manifest_processed_def)
qed

text \<open>
  \<^verbatim>\<open>a.rb\<close> failed earlier and now succeeds: it is still listed as failed, and no entry
  appears for \<^verbatim>\<open>b.rb\<close>.
\<close>

theorem mark_file_processed_frame_witness:
  "failed_files (manifest (fst (mark_file_processed example_platform
       (example_generator\<lparr>manifest := \<lparr>processed_files = None, failed_files = Some [[''a.rb'']], created = None\<rparr>\<rparr>)
       Map.empty [''a.rb''] True (Some ''x = 1'')))) = Some [[''a.rb'']]
   \<and> manifest_processed (manifest (fst (mark_file_processed example_platform
       (example_generator\<lparr>manifest := \<lparr>processed_files = None, failed_files = Some [[''a.rb'']], created = None\<rparr>\<rparr>)
       Map.empty [''a.rb''] True (Some ''x = 1'')))) [''b.rb''] = None"
proof -
  let ?g = "example_generator\<lparr>manifest := \<lparr>processed_files = None, failed_files = Some [[''a.rb'']], created = None\<rparr>\<rparr>"
  show ?thesis
    using mark_file_processed_frame[where os=example_platform and g="?g" and fs=Map.empty
        and p="[''a.rb'']" and c="Some ''x = 1''" and q="[''b.rb'']" and failed="[[''a.rb'']]"]
    by (simp add: manifest_processed_def)
qed

lemma save_documented_generator:
  "fst (save_documented os g fs p result)
     = g\<lparr>manifest := manifest (fst (save_documented os g fs p result))\<rparr>"
  by (simp add: save_documented_def mark_file_processed_def Let_def)



















subsection \<open>Patch Applier\<close>

lemma insert_block_eq:
  "insert_block ls idx block = take idx ls @ block @ drop idx ls"
proof (induction block arbitrary: ls idx)
  case Nil
  show ?case by simp
next
  case (Cons x block)
  show ?case
  proof (cases "idx \<le> length ls")
    case True
    then show ?thesis by (simp add: Cons list_insert_def min_def)
  next
    case False
    then show ?thesis by (simp add: Cons list_insert_def)
  qed
qed

lemma length_insert_block: "length (insert_block ls idx block) = length ls + length block"
  by (simp add: insert_block_eq)

lemma length_comment_lines_for:
  "length (comment_lines_for anchor_line comment_text) = length (split_on newline comment_text)"
  by (simp add: comment_lines_for_def Let_def)

lemma comment_lines_for_free:
  "x \<in> set (comment_lines_for anchor_line comment_text) \<Longrightarrow> newline \<notin> set x"
  by (auto simp: comment_lines_for_def Let_def dest: split_on_parts_free split: if_splits)


lemma lines_ok_initial: "lines_ok (lines (initial_state original))"
  by (auto simp: lines_ok_def initial_state_def split_on_nonempty dest: split_on_parts_free)

lemma lines_ok_process_entry:
  "lines_ok (lines st) \<Longrightarrow> lines_ok (lines (process_entry raw st d))"
proof (cases "placement raw st d")
  case None
  assume "lines_ok (lines st)"
  with None show ?thesis by (simp add: process_entry_None)
next
  case (Some p)
  assume ok: "lines_ok (lines st)"
  obtain idx block where p: "p = (idx, block)" by (cases p)
  from Some p have b: "block = comment_lines_for (lines st ! idx) (py_strip (comment d))"
    using placement_Some by blast
  have "\<And>x. x \<in> set (take idx (lines st)) \<or> x \<in> set (drop idx (lines st)) \<Longrightarrow> x \<in> set (lines st)"
    by (auto dest: in_set_takeD in_set_dropD)
  with ok b Some p show ?thesis
    by (auto simp: process_entry_Some insert_block_eq lines_ok_def dest: comment_lines_for_free)
qed

lemma lines_ok_foldl:
  "lines_ok (lines st) \<Longrightarrow> lines_ok (lines (foldl (process_entry raw) st es))"
  by (induction es arbitrary: st) (auto simp: lines_ok_process_entry)

lemma length_lines_foldl:
  "length (lines (foldl (process_entry raw) st es))
     = length (lines st) + sum_list (map (\<lambda>x. length (snd (snd x))) (applied_from raw st es))"
proof (induction es arbitrary: st)
  case Nil
  show ?case by simp
next
  case (Cons e es)
  show ?case
  proof (cases "placement raw st e")
    case None
    with Cons show ?thesis by (simp add: process_entry_None)
  next
    case (Some p)
    obtain idx block where p: "p = (idx, block)" by (cases p)
    with Some Cons[of "process_entry raw st e"] show ?thesis
      by (simp add: process_entry_Some length_insert_block)
  qed
qed

lemma applied_from_block_length:
  "x \<in> set (applied_from raw st es) \<Longrightarrow>
     length (snd (snd x)) = length (split_on newline (py_strip (comment (fst x))))"
proof (induction es arbitrary: st)
  case Nil
  then show ?case by simp
next
  case (Cons e es)
  show ?case
  proof (cases "placement raw st e")
    case None
    with Cons show ?thesis by simp
  next
    case (Some p)
    obtain idx block where p: "p = (idx, block)" by (cases p)
    from Some p have "length block = length (split_on newline (py_strip (comment e)))"
      using placement_Some[of raw st e idx block] by (simp add: length_comment_lines_for)
    with Some p Cons show ?thesis by auto
  qed
qed

text \<open>
  Claim C2, as the code has it. For every original text and every list of directives, the
  number of lines of the text \<^verbatim>\<open>insert_comments\<close> returns is the number of lines of the
  original plus, summed over the directives that are applied, the number of lines of the
  directive's comment text with its surrounding whitespace removed (the source's
  \<^verbatim>\<open>comment_text\<close>).
\<close>

theorem line_count_law:
  "length (split_on newline (insert_comments raw original ds))
     = length (split_on newline original)
       + sum_list (map (\<lambda>x. length (split_on newline (py_strip (comment (fst x)))))
                       (applied raw original ds))"
proof (cases "ds = []")
  case True
  then show ?thesis by (simp add: insert_comments_def applied_def sorted_comments_def)
next
  case False
  let ?st = "foldl (process_entry raw) (initial_state original) (sorted_comments ds)"
  have ok: "lines_ok (lines ?st)" by (intro lines_ok_foldl lines_ok_initial)
  then have "split_on newline (join_with newline (lines ?st)) = lines ?st"
    by (intro split_on_join) (auto simp: lines_ok_def)
  then have "length (split_on newline (insert_comments raw original ds)) = length (lines ?st)"
    using False by (simp add: insert_comments_def)
  also have "\<dots> = length (lines (initial_state original))
      + sum_list (map (\<lambda>x. length (snd (snd x)))
          (applied_from raw (initial_state original) (sorted_comments ds)))"
    by (rule length_lines_foldl)
  also have "map (\<lambda>x. length (snd (snd x))) (applied_from raw (initial_state original) (sorted_comments ds))
      = map (\<lambda>x. length (split_on newline (py_strip (comment (fst x)))))
          (applied_from raw (initial_state original) (sorted_comments ds))"
    by (rule map_cong) (auto dest: applied_from_block_length)
  finally show ?thesis by (simp add: applied_def initial_state_def)
qed

text \<open>Four lines and two applied directives, of one and of two comment lines.\<close>

theorem line_count_law_witness:
  "length (split_on newline (insert_comments no_raw_search
       (''class A'' @ [newline] @ ''  def foo'' @ [newline] @ ''  end'' @ [newline] @ ''end'')
       [\<lparr>line_number = 1, anchor = ''class A'', indent = 0, comment = ''# doc A''\<rparr>,
        \<lparr>line_number = 3, anchor = ''def foo'', indent = 0,
         comment = ''# doc'' @ [newline] @ ''# more''\<rparr>])) = 4 + (2 + 1)"
proof -
  let ?c = "''class A'' @ [newline] @ ''  def foo'' @ [newline] @ ''  end'' @ [newline] @ ''end''"
  let ?ds = "[\<lparr>line_number = 1, anchor = ''class A'', indent = 0, comment = ''# doc A''\<rparr>,
        \<lparr>line_number = 3, anchor = ''def foo'', indent = 0,
         comment = ''# doc'' @ [newline] @ ''# more''\<rparr>]"
  have a: "map (\<lambda>x. length (split_on newline (py_strip (comment (fst x)))))
             (applied no_raw_search ?c ?ds) = [2, 1]"
    by code_simp
  have b: "length (split_on newline ?c) = 4" by code_simp
  show ?thesis
    using line_count_law[of no_raw_search ?c ?ds] by (simp only: a b) simp
qed

text \<open>
  Claim C2 as stated fails on a comment that starts with a line break: the comment text
  has two lines, the directive is applied, and one line is inserted.
\<close>

theorem line_count_law_counterexample:
  "length (split_on newline (insert_comments no_raw_search ''def foo''
       [\<lparr>line_number = 1, anchor = ''def foo'', indent = 0, comment = [newline] @ ''# doc''\<rparr>])) = 2
   \<and> length (split_on newline ''def foo'') = 1
   \<and> map fst (applied no_raw_search ''def foo''
       [\<lparr>line_number = 1, anchor = ''def foo'', indent = 0, comment = [newline] @ ''# doc''\<rparr>])
       = [\<lparr>line_number = 1, anchor = ''def foo'', indent = 0, comment = [newline] @ ''# doc''\<rparr>]
   \<and> length (split_on newline ([newline] @ ''# doc'')) = 2"
  by code_simp

lemma applied_from_anchors:
  "distinct (map (\<lambda>x. anchor_normalized (fst x)) (applied_from raw st es))
   \<and> (\<forall>x \<in> set (applied_from raw st es). anchor_normalized (fst x) \<notin> documented_anchors st)"
proof (induction es arbitrary: st)
  case Nil
  show ?case by simp
next
  case (Cons e es)
  show ?case
  proof (cases "placement raw st e")
    case None
    with Cons show ?thesis by simp
  next
    case (Some p)
    obtain idx block where p: "p = (idx, block)" by (cases p)
    from Some p have doc: "documented_anchors (process_entry raw st e)
        = insert (anchor_normalized e) (documented_anchors st)"
      by (simp add: process_entry_Some)
    from Some p have "anchor_normalized e \<notin> documented_anchors st" using placement_Some by blast
    with Cons[of "process_entry raw st e"] Some p doc show ?thesis by auto
  qed
qed

lemma placement_documented:
  "anchor_normalized d \<in> documented_anchors st \<Longrightarrow> placement raw st d = None"
  by (simp add: placement_def Let_def)

lemma applied_from_pair:
  assumes "anchor_normalized a = anchor_normalized b"
  shows "applied_from raw st [a, b] =
     (case placement raw st a of
        Some p \<Rightarrow> [(a, p)]
      | None \<Rightarrow> (case placement raw st b of Some q \<Rightarrow> [(b, q)] | None \<Rightarrow> []))"
proof (cases "placement raw st a")
  case None
  then show ?thesis by (simp split: option.splits)
next
  case (Some p)
  obtain idx block where p: "p = (idx, block)" by (cases p)
  from Some p have "anchor_normalized b \<in> documented_anchors (process_entry raw st a)"
    using assms by (simp add: process_entry_Some)
  then have "placement raw (process_entry raw st a) b = None" by (rule placement_documented)
  with Some show ?thesis by simp
qed

lemma applied_from_pair_length:
  assumes "anchor_normalized a = anchor_normalized b"
  shows "length (applied_from raw st [a, b]) \<le> 1"
    and "placement raw st a \<noteq> None \<or> placement raw st b \<noteq> None
         \<Longrightarrow> length (applied_from raw st [a, b]) = 1"
  unfolding applied_from_pair[OF assms] by (auto split: option.splits)

lemma sorted_comments_pair: "sorted_comments [a, b] = [a, b] \<or> sorted_comments [a, b] = [b, a]"
  by (simp add: sorted_comments_def)

text \<open>
  Claim C8, as the code has it. For every original text and list of directives, the
  directives \<^verbatim>\<open>insert_comments\<close> applies have pairwise different normalized anchors
  (trimmed, lower-cased). Two directives with the same normalized anchor lead to at most
  one inserted block, and to exactly one when at least one of the two would be placed in
  the unchanged file on its own.
\<close>

theorem anchor_uniqueness:
  "distinct (map (\<lambda>x. anchor_normalized (fst x)) (applied raw original ds))
   \<and> (anchor_normalized d1 = anchor_normalized d2 \<longrightarrow> length (applied raw original [d1, d2]) \<le> 1)
   \<and> (anchor_normalized d1 = anchor_normalized d2
        \<and> (placement raw (initial_state original) d1 \<noteq> None
             \<or> placement raw (initial_state original) d2 \<noteq> None)
      \<longrightarrow> length (applied raw original [d1, d2]) = 1)"
proof -
  have 1: "distinct (map (\<lambda>x. anchor_normalized (fst x)) (applied raw original ds))"
    using applied_from_anchors by (simp add: applied_def)
  have 2: "length (applied raw original [d1, d2]) \<le> 1"
    if eq: "anchor_normalized d1 = anchor_normalized d2"
    using sorted_comments_pair[of d1 d2]
      applied_from_pair_length(1)[OF eq, of raw "initial_state original"]
      applied_from_pair_length(1)[OF eq[symmetric], of raw "initial_state original"]
    unfolding applied_def by (elim disjE) (simp_all only:)
  have 3: "length (applied raw original [d1, d2]) = 1"
    if eq: "anchor_normalized d1 = anchor_normalized d2"
      and pl: "placement raw (initial_state original) d1 \<noteq> None
             \<or> placement raw (initial_state original) d2 \<noteq> None"
  proof -
    from pl have pl': "placement raw (initial_state original) d2 \<noteq> None
             \<or> placement raw (initial_state original) d1 \<noteq> None" by blast
    show ?thesis
      using sorted_comments_pair[of d1 d2]
        applied_from_pair_length(2)[OF eq pl]
        applied_from_pair_length(2)[OF eq[symmetric] pl']
      unfolding applied_def by (elim disjE) (simp_all only:)
  qed
  from 1 2 3 show ?thesis by blast
qed

text \<open>The anchors \<^verbatim>\<open>def foo\<close> and \<^verbatim>\<open> DEF Foo \<close> on a file that declares \<^verbatim>\<open>def foo\<close>.\<close>

theorem anchor_uniqueness_witness:
  "distinct (map (\<lambda>x. anchor_normalized (fst x)) (applied no_raw_search (''def foo'' @ [newline] @ ''end'')
       [\<lparr>line_number = 1, anchor = ''def foo'', indent = 0, comment = ''# one''\<rparr>,
        \<lparr>line_number = 1, anchor = '' DEF Foo '', indent = 0, comment = ''# two''\<rparr>]))
   \<and> length (applied no_raw_search (''def foo'' @ [newline] @ ''end'')
       [\<lparr>line_number = 1, anchor = ''def foo'', indent = 0, comment = ''# one''\<rparr>,
        \<lparr>line_number = 1, anchor = '' DEF Foo '', indent = 0, comment = ''# two''\<rparr>]) = 1"
proof -
  let ?c = "''def foo'' @ [newline] @ ''end''"
  let ?d1 = "\<lparr>line_number = 1, anchor = ''def foo'', indent = 0, comment = ''# one''\<rparr>"
  let ?d2 = "\<lparr>line_number = 1, anchor = '' DEF Foo '', indent = 0, comment = ''# two''\<rparr>"
  have eq: "anchor_normalized ?d1 = anchor_normalized ?d2" by code_simp
  have pl: "placement no_raw_search (initial_state ?c) ?d1 \<noteq> None" by code_simp
  show ?thesis
    using anchor_uniqueness[where raw=no_raw_search and original="?c" and ds="[?d1, ?d2]"
        and ?d1.0="?d1" and ?d2.0="?d2"] eq pl
    by blast
qed

text \<open>
  Claim C8 as stated fails where neither directive finds its anchor: two directives with
  the same normalized anchor \<^verbatim>\<open>def foo\<close> on the file \<^verbatim>\<open>x = 1\<close> insert no block at all.
\<close>

theorem anchor_uniqueness_counterexample:
  "anchor_normalized \<lparr>line_number = 1, anchor = ''def foo'', indent = 0, comment = ''# one''\<rparr>
     = anchor_normalized \<lparr>line_number = 1, anchor = ''DEF FOO'', indent = 0, comment = ''# two''\<rparr>
   \<and> applied no_raw_search ''x = 1''
       [\<lparr>line_number = 1, anchor = ''def foo'', indent = 0, comment = ''# one''\<rparr>,
        \<lparr>line_number = 1, anchor = ''DEF FOO'', indent = 0, comment = ''# two''\<rparr>] = []
   \<and> insert_comments no_raw_search ''x = 1''
       [\<lparr>line_number = 1, anchor = ''def foo'', indent = 0, comment = ''# one''\<rparr>,
        \<lparr>line_number = 1, anchor = ''DEF FOO'', indent = 0, comment = ''# two''\<rparr>] = ''x = 1''"
  by code_simp

lemma actual_indent_eq:
  "length ln - length (py_lstrip ln) = length (takeWhile is_space ln)"
proof -
  have "length (takeWhile is_space ln) + length (dropWhile is_space ln) = length ln"
    by (metis length_append takeWhile_dropWhile_id)
  then show ?thesis by (simp add: py_lstrip_def)
qed

lemma comment_lines_for_eq:
  "comment_lines_for ln text =
     map (\<lambda>cl. if py_strip cl \<noteq> [] then replicate (length (takeWhile is_space ln)) CHR '' '' @ cl else [])
         (split_on newline text)"
  by (simp add: comment_lines_for_def Let_def actual_indent_eq)

lemma spaces_only_indent:
  "list_all (\<lambda>c. c = CHR '' '') ws \<Longrightarrow> replicate (length ws) CHR '' '' = ws"
  by (induction ws) auto

lemma anchor_normalized_indent: "anchor_normalized (d\<lparr>indent := i\<rparr>) = anchor_normalized d"
  by (simp add: anchor_normalized_def)

lemma placement_indent: "placement raw st (d\<lparr>indent := i\<rparr>) = placement raw st d"
  by (simp add: placement_def anchor_normalized_indent Let_def)

lemma process_entry_indent: "process_entry raw st (d\<lparr>indent := i\<rparr>) = process_entry raw st d"
  by (simp add: process_entry_def placement_indent anchor_normalized_indent split: option.splits)

lemma foldl_process_entry_indent:
  "foldl (process_entry raw) st (map (\<lambda>d. d\<lparr>indent := f d\<rparr>) es) = foldl (process_entry raw) st es"
  by (induction es arbitrary: st) (simp_all add: process_entry_indent)

lemma insort_key_map_indent:
  "insort_key (\<lambda>x. - line_number x) (d\<lparr>indent := f d\<rparr>) (map (\<lambda>d. d\<lparr>indent := f d\<rparr>) xs)
     = map (\<lambda>d. d\<lparr>indent := f d\<rparr>) (insort_key (\<lambda>x. - line_number x) d xs)"
  by (induction xs) simp_all

lemma sorted_comments_indent:
  "sorted_comments (map (\<lambda>d. d\<lparr>indent := f d\<rparr>) ds) = map (\<lambda>d. d\<lparr>indent := f d\<rparr>) (sorted_comments ds)"
  unfolding sorted_comments_def
  by (induction ds) (simp_all add: insort_key_map_indent)

text \<open>
  Claim C9, as the code has it. When a directive is applied at the matched line, every
  comment line that is not blank is inserted behind as many spaces as the matched line has
  leading whitespace characters, and every blank comment line (empty or whitespace only) is
  inserted as the empty line; the block goes directly before the matched line. The spaces
  are the matched line's leading whitespace itself when that consists of spaces. The
  \<^verbatim>\<open>indent\<close> field is never used: changing the \<^verbatim>\<open>indent\<close> fields of the directives does not
  change the text returned.
\<close>

theorem indentation_rule:
  "(placement raw st d = Some (idx, block) \<longrightarrow>
      block = map (\<lambda>cl. if py_strip cl \<noteq> []
                         then replicate (length (takeWhile is_space (lines st ! idx))) CHR '' '' @ cl
                         else [])
                  (split_on newline (py_strip (comment d)))
      \<and> lines (process_entry raw st d) = take idx (lines st) @ block @ drop idx (lines st))
   \<and> (list_all (\<lambda>c. c = CHR '' '') (takeWhile is_space ln)
        \<longrightarrow> replicate (length (takeWhile is_space ln)) CHR '' '' = takeWhile is_space ln)
   \<and> insert_comments raw original (map (\<lambda>d. d\<lparr>indent := f d\<rparr>) ds) = insert_comments raw original ds"
proof -
  have 1: "block = map (\<lambda>cl. if py_strip cl \<noteq> []
                         then replicate (length (takeWhile is_space (lines st ! idx))) CHR '' '' @ cl
                         else [])
                  (split_on newline (py_strip (comment d)))
      \<and> lines (process_entry raw st d) = take idx (lines st) @ block @ drop idx (lines st)"
    if "placement raw st d = Some (idx, block)"
    using placement_Some[OF that] process_entry_Some[OF that]
    by (simp add: comment_lines_for_eq insert_block_eq)
  have 3: "insert_comments raw original (map (\<lambda>d. d\<lparr>indent := f d\<rparr>) ds) = insert_comments raw original ds"
    by (simp add: insert_comments_def sorted_comments_indent foldl_process_entry_indent)
  from 1 3 spaces_only_indent[of "takeWhile is_space ln"] show ?thesis by blast
qed

text \<open>A comment of three lines, the middle one blank, before a line indented by two spaces.\<close>

theorem indentation_rule_witness:
  "lines (process_entry no_raw_search
       \<lparr>lines = [''class A'', ''  def foo''], inserted_at_lines = {}, documented_anchors = {}\<rparr>
       \<lparr>line_number = 2, anchor = ''def foo'', indent = 7,
        comment = ''# one'' @ [newline] @ '' '' @ [newline] @ ''# two''\<rparr>)
     = [''class A'', ''  # one'', [], ''  # two'', ''  def foo'']
   \<and> replicate (length (takeWhile is_space ''  def foo'')) CHR '' '' = takeWhile is_space ''  def foo''
   \<and> insert_comments no_raw_search (''class A'' @ [newline] @ ''  def foo'')
        (map (\<lambda>d. d\<lparr>indent := 0\<rparr>)
          [\<lparr>line_number = 2, anchor = ''def foo'', indent = 7, comment = ''# one''\<rparr>])
     = insert_comments no_raw_search (''class A'' @ [newline] @ ''  def foo'')
          [\<lparr>line_number = 2, anchor = ''def foo'', indent = 7, comment = ''# one''\<rparr>]"
proof -
  let ?st = "\<lparr>lines = [''class A'', ''  def foo''], inserted_at_lines = {}, documented_anchors = {}\<rparr>"
  let ?d = "\<lparr>line_number = 2, anchor = ''def foo'', indent = 7,
        comment = ''# one'' @ [newline] @ '' '' @ [newline] @ ''# two''\<rparr>"
  let ?block = "[''  # one'', [], ''  # two'']"
  have pl: "placement no_raw_search ?st ?d = Some (1, ?block)" by code_simp
  have sp: "list_all (\<lambda>c. c = CHR '' '') (takeWhile is_space ''  def foo'')" by code_simp
  note t = indentation_rule[where raw=no_raw_search and st="?st" and d="?d" and idx=1 and block="?block"
      and ln="''  def foo''" and original="''class A'' @ [newline] @ ''  def foo''"
      and f="\<lambda>d. 0" and ds="[\<lparr>line_number = 2, anchor = ''def foo'', indent = 7, comment = ''# one''\<rparr>]"]
  have "lines (process_entry no_raw_search ?st ?d) = take 1 (lines ?st) @ ?block @ drop 1 (lines ?st)"
    using t pl by blast
  then have a: "lines (process_entry no_raw_search ?st ?d)
      = [''class A'', ''  # one'', [], ''  # two'', ''  def foo'']" by simp
  have b: "replicate (length (takeWhile is_space ''  def foo'')) CHR '' '' = takeWhile is_space ''  def foo''"
    using t sp by blast
  from t a b show ?thesis by blast
qed

text \<open>
  Claim C9 as stated fails on a line indented by a tab: the comment is inserted behind one
  space, not behind the tab that is the leading whitespace of the matched line.
\<close>

theorem indentation_rule_counterexample:
  "takeWhile is_space ([tab] @ ''def foo'') = [tab]
   \<and> find_insertion_line no_raw_search (split_on newline ([tab] @ ''def foo'')) 1 ''def foo'' {} = Inr (Some 0)
   \<and> insert_comments no_raw_search ([tab] @ ''def foo'')
        [\<lparr>line_number = 1, anchor = ''def foo'', indent = 0, comment = ''# doc''\<rparr>]
      = '' # doc'' @ [newline] @ [tab] @ ''def foo''
   \<and> insert_comments no_raw_search ([tab] @ ''def foo'')
        [\<lparr>line_number = 1, anchor = ''def foo'', indent = 0, comment = ''# doc''\<rparr>]
      \<noteq> ([tab] @ ''# doc'') @ [newline] @ [tab] @ ''def foo''"
  by code_simp






subsection \<open>Anchor Resolver: the pattern for method definitions\<close>

lemma py_in_iff: "py_in sub s \<longleftrightarrow> (\<exists>x y. s = x @ sub @ y)"
proof (induction s)
  case Nil
  show ?case by auto
next
  case (Cons c cs)
  show ?case
  proof
    assume "py_in sub (c # cs)"
    then consider "prefix sub (c # cs)" | "py_in sub cs" by auto
    then show "\<exists>x y. c # cs = x @ sub @ y"
    proof cases
      case 1
      then obtain y where "c # cs = sub @ y" by (auto simp: prefix_def)
      then have "c # cs = [] @ sub @ y" by simp
      then show ?thesis by blast
    next
      case 2
      with Cons obtain x y where "cs = x @ sub @ y" by blast
      then have "c # cs = (c # x) @ sub @ y" by simp
      then show ?thesis by blast
    qed
  next
    assume "\<exists>x y. c # cs = x @ sub @ y"
    then obtain x y where xy: "c # cs = x @ sub @ y" by blast
    show "py_in sub (c # cs)"
    proof (cases x)
      case Nil
      with xy have "prefix sub (c # cs)" by (simp add: prefix_def)
      then show ?thesis by simp
    next
      case (Cons a x')
      with xy have "cs = x' @ sub @ y" by simp
      with Cons.IH have "py_in sub cs" by blast
      then show ?thesis by simp
    qed
  qed
qed

lemma after_Cons: "after p (c # b) = after (Some c) b"
  by (simp add: after_def)

lemma after_append: "after p (u @ v) = after (after p u) v"
  by (simp add: after_def)

lemma search_from_iff:
  "search_from r (p, s) \<longleftrightarrow> (\<exists>before rest. s = before @ rest \<and> rx_ends r (after p before, rest) \<noteq> [])"
proof (induction s arbitrary: p)
  case Nil
  show ?case by (simp add: after_def)
next
  case (Cons c cs)
  have "(\<exists>before rest. c # cs = before @ rest \<and> rx_ends r (after p before, rest) \<noteq> [])
        \<longleftrightarrow> (rx_ends r (p, c # cs) \<noteq> []
             \<or> (\<exists>b rest. cs = b @ rest \<and> rx_ends r (after (Some c) b, rest) \<noteq> []))"
  proof
    assume "\<exists>before rest. c # cs = before @ rest \<and> rx_ends r (after p before, rest) \<noteq> []"
    then obtain before rest where br: "c # cs = before @ rest" "rx_ends r (after p before, rest) \<noteq> []"
      by blast
    show "rx_ends r (p, c # cs) \<noteq> []
             \<or> (\<exists>b rest. cs = b @ rest \<and> rx_ends r (after (Some c) b, rest) \<noteq> [])"
    proof (cases before)
      case Nil
      with br show ?thesis by (simp add: after_def)
    next
      case (Cons a b)
      with br have "cs = b @ rest" "rx_ends r (after (Some c) b, rest) \<noteq> []"
        by (simp_all add: after_Cons)
      then show ?thesis by blast
    qed
  next
    assume "rx_ends r (p, c # cs) \<noteq> []
             \<or> (\<exists>b rest. cs = b @ rest \<and> rx_ends r (after (Some c) b, rest) \<noteq> [])"
    then show "\<exists>before rest. c # cs = before @ rest \<and> rx_ends r (after p before, rest) \<noteq> []"
    proof
      assume "rx_ends r (p, c # cs) \<noteq> []"
      then have "c # cs = [] @ (c # cs) \<and> rx_ends r (after p [], c # cs) \<noteq> []"
        by (simp add: after_def)
      then show ?thesis by blast
    next
      assume "\<exists>b rest. cs = b @ rest \<and> rx_ends r (after (Some c) b, rest) \<noteq> []"
      then obtain b rest where "cs = b @ rest" "rx_ends r (after (Some c) b, rest) \<noteq> []" by blast
      then have "c # cs = (c # b) @ rest \<and> rx_ends r (after p (c # b), rest) \<noteq> []"
        by (simp add: after_Cons)
      then show ?thesis by blast
    qed
  qed
  with Cons show ?case by simp
qed

lemma re_search_iff:
  "re_search r line \<longleftrightarrow>
     (\<exists>before rest. line = before @ rest \<and> rx_ends r (after None before, rest) \<noteq> [])"
  by (simp add: re_search_def search_from_iff)

lemma seq_nonempty:
  "rx_ends (Seq r1 r2) pos \<noteq> [] \<longleftrightarrow> (\<exists>m \<in> set (rx_ends r1 pos). rx_ends r2 m \<noteq> [])"
  by auto

lemma lit_ends:
  "q \<in> set (rx_ends (Lit t) (p, s)) \<longleftrightarrow> (\<exists>s'. s = t @ s' \<and> q = (after p t, s'))"
  by (auto simp: prefix_def advance_def)

lemma takeWhile_take:
  "n \<le> length (takeWhile P s) \<Longrightarrow> take n s = take n (takeWhile P s)"
proof -
  assume n: "n \<le> length (takeWhile P s)"
  have "take n s = take n (takeWhile P s @ dropWhile P s)" by simp
  also have "\<dots> = take n (takeWhile P s)" using n by (simp only: take_append) simp
  finally show ?thesis .
qed

lemma plus_ends_index:
  "q \<in> set (rx_ends (Plus k) (p, s)) \<longleftrightarrow>
     (\<exists>n. 1 \<le> n \<and> n \<le> length (takeWhile (in_class k) s) \<and> q = advance (p, s) n)"
proof -
  have "set (rx_ends (Plus k) (p, s))
        = advance (p, s) ` {1..<Suc (length (takeWhile (in_class k) s))}"
    by (simp del: upt_Suc)
  then show ?thesis by (auto simp: image_iff)
qed

lemma plus_ends:
  "q \<in> set (rx_ends (Plus k) (p, s)) \<longleftrightarrow>
     (\<exists>w s'. w \<noteq> [] \<and> list_all (in_class k) w \<and> s = w @ s' \<and> q = (after p w, s'))"
proof
  assume "q \<in> set (rx_ends (Plus k) (p, s))"
  then obtain n where n: "1 \<le> n" "n \<le> length (takeWhile (in_class k) s)" "q = advance (p, s) n"
    unfolding plus_ends_index by blast
  let ?w = "take n s"
  have le: "length (takeWhile (in_class k) s) \<le> length s" by (rule length_takeWhile_le)
  have w: "?w = take n (takeWhile (in_class k) s)" using n(2) by (rule takeWhile_take)
  have "set ?w \<subseteq> set (takeWhile (in_class k) s)" unfolding w by (rule set_take_subset)
  then have "list_all (in_class k) ?w" by (auto simp: list_all_iff dest: set_takeWhileD)
  moreover have "?w \<noteq> []" using n(1,2) le by auto
  moreover have "s = ?w @ drop n s" by simp
  moreover have "q = (after p ?w, drop n s)" using n(3) by (simp add: advance_def)
  ultimately show "\<exists>w s'. w \<noteq> [] \<and> list_all (in_class k) w \<and> s = w @ s' \<and> q = (after p w, s')"
    by blast
next
  assume "\<exists>w s'. w \<noteq> [] \<and> list_all (in_class k) w \<and> s = w @ s' \<and> q = (after p w, s')"
  then obtain w s' where w: "w \<noteq> []" "list_all (in_class k) w" "s = w @ s'" "q = (after p w, s')"
    by blast
  have "takeWhile (in_class k) s = w @ takeWhile (in_class k) s'"
    using w(2,3) by (simp add: takeWhile_append2 list_all_iff)
  then have "length w \<le> length (takeWhile (in_class k) s)" by simp
  moreover have "1 \<le> length w" using w(1) by (cases w) auto
  moreover have "q = advance (p, s) (length w)" using w(3,4) by (simp add: advance_def)
  ultimately show "q \<in> set (rx_ends (Plus k) (p, s))" unfolding plus_ends_index by blast
qed

lemma opt_tail_nonempty: "rx_ends (Seq (Lit name) (Opt r)) (p, s) \<noteq> [] \<longleftrightarrow> prefix name s"
  by (auto simp: prefix_def)

lemma lit_tail_nonempty: "rx_ends (Lit name) (p, s) \<noteq> [] \<longleftrightarrow> prefix name s"
  by simp

lemma in_class_word: "in_class WordChar = is_word"
  by (rule ext) simp

lemma in_class_space: "in_class Space = is_space"
  by (rule ext) simp

lemma self_is_word: "list_all is_word ''self''"
  by (simp add: is_word_def is_ascii_lower_def is_ascii_upper_def is_ascii_digit_def
      is_latin1_upper_def is_latin1_lower_def is_latin1_numeric_def code_point_def)

lemma opt_ends: "q \<in> set (rx_ends (Opt r) pos) \<longleftrightarrow> q \<in> set (rx_ends r pos) \<or> q = pos"
  by auto

lemma seq_ends:
  "q \<in> set (rx_ends (Seq r1 r2) pos) \<longleftrightarrow> (\<exists>m. m \<in> set (rx_ends r1 pos) \<and> q \<in> set (rx_ends r2 m))"
  by auto

lemma alt_ends:
  "q \<in> set (rx_ends (Alt r1 r2) pos) \<longleftrightarrow> q \<in> set (rx_ends r1 pos) \<or> q \<in> set (rx_ends r2 pos)"
  by simp

lemma word_run_ends:
  "m \<in> set (rx_ends (Alt (Lit ''self'') (Plus WordChar)) (p, s)) \<longleftrightarrow>
      (\<exists>w s1. w \<noteq> [] \<and> list_all is_word w \<and> s = w @ s1 \<and> m = (after p w, s1))"
proof
  assume "m \<in> set (rx_ends (Alt (Lit ''self'') (Plus WordChar)) (p, s))"
  then consider "m \<in> set (rx_ends (Lit ''self'') (p, s))" | "m \<in> set (rx_ends (Plus WordChar) (p, s))"
    unfolding alt_ends by blast
  then show "\<exists>w s1. w \<noteq> [] \<and> list_all is_word w \<and> s = w @ s1 \<and> m = (after p w, s1)"
  proof cases
    case 1
    then obtain s1 where "s = ''self'' @ s1" "m = (after p ''self'', s1)"
      unfolding lit_ends by blast
    moreover have "''self'' \<noteq> []" by simp
    ultimately show ?thesis using self_is_word by blast
  next
    case 2
    then show ?thesis unfolding plus_ends in_class_word by blast
  qed
next
  assume "\<exists>w s1. w \<noteq> [] \<and> list_all is_word w \<and> s = w @ s1 \<and> m = (after p w, s1)"
  then have "m \<in> set (rx_ends (Plus WordChar) (p, s))" unfolding plus_ends in_class_word by blast
  then show "m \<in> set (rx_ends (Alt (Lit ''self'') (Plus WordChar)) (p, s))" unfolding alt_ends by blast
qed

lemma qualifier_ends:
  "q \<in> set (rx_ends qualifier_rx (p, s)) \<longleftrightarrow>
     (q = (p, s)
      \<or> (\<exists>receiver s'. receiver \<noteq> [] \<and> list_all is_word receiver
            \<and> s = (receiver @ ''.'') @ s' \<and> q = (after p (receiver @ ''.''), s')))"
proof
  assume "q \<in> set (rx_ends qualifier_rx (p, s))"
  then consider "q = (p, s)"
    | m where "m \<in> set (rx_ends (Alt (Lit ''self'') (Plus WordChar)) (p, s))"
        "q \<in> set (rx_ends (Lit ''.'') m)"
    unfolding qualifier_rx_def opt_ends seq_ends by blast
  then show "q = (p, s)
      \<or> (\<exists>receiver s'. receiver \<noteq> [] \<and> list_all is_word receiver
            \<and> s = (receiver @ ''.'') @ s' \<and> q = (after p (receiver @ ''.''), s'))"
  proof cases
    case 1
    then show ?thesis by blast
  next
    case 2
    from 2(1) obtain w s1 where w: "w \<noteq> []" "list_all is_word w" "s = w @ s1" "m = (after p w, s1)"
      unfolding word_run_ends by blast
    from 2(2) have "q \<in> set (rx_ends (Lit ''.'') (after p w, s1))" by (simp only: w(4))
    then obtain s' where s': "s1 = ''.'' @ s'" "q = (after (after p w) ''.'', s')"
      unfolding lit_ends by blast
    have "s = (w @ ''.'') @ s'" using w(3) s'(1) by simp
    moreover have "q = (after p (w @ ''.''), s')" using s'(2) by (simp only: after_append)
    ultimately show ?thesis using w(1,2) by blast
  qed
next
  assume "q = (p, s)
      \<or> (\<exists>receiver s'. receiver \<noteq> [] \<and> list_all is_word receiver
            \<and> s = (receiver @ ''.'') @ s' \<and> q = (after p (receiver @ ''.''), s'))"
  then show "q \<in> set (rx_ends qualifier_rx (p, s))"
  proof
    assume "q = (p, s)"
    then show ?thesis unfolding qualifier_rx_def opt_ends by blast
  next
    assume "\<exists>receiver s'. receiver \<noteq> [] \<and> list_all is_word receiver
            \<and> s = (receiver @ ''.'') @ s' \<and> q = (after p (receiver @ ''.''), s')"
    then obtain receiver s' where r: "receiver \<noteq> []" "list_all is_word receiver"
        "s = (receiver @ ''.'') @ s'" "q = (after p (receiver @ ''.''), s')"
      by blast
    have "s = receiver @ (''.'' @ s')" using r(3) by simp
    with r(1,2) have m: "(after p receiver, ''.'' @ s') \<in> set (rx_ends (Alt (Lit ''self'') (Plus WordChar)) (p, s))"
      unfolding word_run_ends by blast
    have "q = (after (after p receiver) ''.'', s')" using r(4) by (simp only: after_append)
    then have "q \<in> set (rx_ends (Lit ''.'') (after p receiver, ''.'' @ s'))"
      unfolding lit_ends by blast
    with m show ?thesis unfolding qualifier_rx_def opt_ends seq_ends by blast
  qed
qed

lemma qualified_name_nonempty:
  assumes tail: "\<And>p s. rx_ends tail (p, s) \<noteq> [] \<longleftrightarrow> prefix name s"
  shows "rx_ends (Seq qualifier_rx tail) (p, s) \<noteq> [] \<longleftrightarrow> name_at name s"
proof -
  have "rx_ends (Seq qualifier_rx tail) (p, s) \<noteq> [] \<longleftrightarrow>
      (\<exists>q \<in> set (rx_ends qualifier_rx (p, s)). rx_ends tail q \<noteq> [])"
    by (rule seq_nonempty)
  also have "\<dots> \<longleftrightarrow> (prefix name s
      \<or> (\<exists>receiver s'. receiver \<noteq> [] \<and> list_all is_word receiver
            \<and> s = (receiver @ ''.'') @ s' \<and> prefix name s'))"
  proof -
    have "(\<exists>q \<in> set (rx_ends qualifier_rx (p, s)). rx_ends tail q \<noteq> [])
        \<longleftrightarrow> (\<exists>q. (q = (p, s)
      \<or> (\<exists>receiver s'. receiver \<noteq> [] \<and> list_all is_word receiver
            \<and> s = (receiver @ ''.'') @ s' \<and> q = (after p (receiver @ ''.''), s')))
          \<and> rx_ends tail q \<noteq> [])"
      unfolding Bex_def qualifier_ends ..
    also have "\<dots> \<longleftrightarrow> (prefix name s
      \<or> (\<exists>receiver s'. receiver \<noteq> [] \<and> list_all is_word receiver
            \<and> s = (receiver @ ''.'') @ s' \<and> prefix name s'))"
      using tail by blast
    finally show ?thesis .
  qed
  also have "\<dots> \<longleftrightarrow> name_at name s"
  proof
    assume "prefix name s \<or> (\<exists>receiver s'. receiver \<noteq> [] \<and> list_all is_word receiver
            \<and> s = (receiver @ ''.'') @ s' \<and> prefix name s')"
    then show "name_at name s"
    proof
      assume "prefix name s"
      then obtain rest where "s = [] @ name @ rest" by (auto simp: prefix_def)
      then show ?thesis unfolding name_at_def by blast
    next
      assume "\<exists>receiver s'. receiver \<noteq> [] \<and> list_all is_word receiver
            \<and> s = (receiver @ ''.'') @ s' \<and> prefix name s'"
      then obtain receiver s' rest where r: "receiver \<noteq> []" "list_all is_word receiver"
          "s = (receiver @ ''.'') @ s'" "s' = name @ rest"
        by (auto simp: prefix_def)
      then have "s = (receiver @ ''.'') @ name @ rest" by simp
      with r(1,2) show ?thesis unfolding name_at_def by blast
    qed
  next
    assume "name_at name s"
    then obtain qualifier rest where q: "s = qualifier @ name @ rest"
        "qualifier = [] \<or> (\<exists>receiver. receiver \<noteq> [] \<and> list_all is_word receiver
                                   \<and> qualifier = receiver @ ''.'')"
      unfolding name_at_def by blast
    from q(2) show "prefix name s \<or> (\<exists>receiver s'. receiver \<noteq> [] \<and> list_all is_word receiver
            \<and> s = (receiver @ ''.'') @ s' \<and> prefix name s')"
    proof
      assume "qualifier = []"
      with q(1) show ?thesis by (simp add: prefix_def)
    next
      assume "\<exists>receiver. receiver \<noteq> [] \<and> list_all is_word receiver \<and> qualifier = receiver @ ''.''"
      then obtain receiver where "receiver \<noteq> []" "list_all is_word receiver" "qualifier = receiver @ ''.''"
        by blast
      with q(1) have "receiver \<noteq> [] \<and> list_all is_word receiver
            \<and> s = (receiver @ ''.'') @ (name @ rest) \<and> prefix name (name @ rest)"
        by simp
      then show ?thesis by blast
    qed
  qed
  finally show ?thesis .
qed

lemma d_is_word: "is_word CHR ''d''"
  by (simp add: is_word_def is_ascii_lower_def is_ascii_upper_def is_ascii_digit_def
      is_latin1_upper_def is_latin1_lower_def is_latin1_numeric_def code_point_def)

lemma wordb_seq_nonempty:
  "rx_ends (Seq WordB r) pos \<noteq> [] \<longleftrightarrow> word_before pos \<noteq> word_after pos \<and> rx_ends r pos \<noteq> []"
  by simp

lemma lit_seq_nonempty:
  "rx_ends (Seq (Lit t) r) (p, s) \<noteq> [] \<longleftrightarrow> (\<exists>s'. s = t @ s' \<and> rx_ends r (after p t, s') \<noteq> [])"
proof -
  have "rx_ends (Seq (Lit t) r) (p, s) \<noteq> [] \<longleftrightarrow>
      (\<exists>m. m \<in> set (rx_ends (Lit t) (p, s)) \<and> rx_ends r m \<noteq> [])"
    unfolding seq_nonempty by blast
  then show ?thesis unfolding lit_ends by blast
qed

lemma plus_seq_nonempty:
  "rx_ends (Seq (Plus k) r) (p, s) \<noteq> [] \<longleftrightarrow>
     (\<exists>w s'. w \<noteq> [] \<and> list_all (in_class k) w \<and> s = w @ s' \<and> rx_ends r (after p w, s') \<noteq> [])"
proof -
  have "rx_ends (Seq (Plus k) r) (p, s) \<noteq> [] \<longleftrightarrow>
      (\<exists>m. m \<in> set (rx_ends (Plus k) (p, s)) \<and> rx_ends r m \<noteq> [])"
    unfolding seq_nonempty by blast
  then show ?thesis unfolding plus_ends by blast
qed

lemma def_pattern_nonempty:
  assumes tail: "\<And>p s. rx_ends tail (p, s) \<noteq> [] \<longleftrightarrow> prefix name s"
  shows "rx_ends (Seq WordB (Seq (Lit ''def'') (Seq (Plus Space) (Seq qualifier_rx tail)))) (p, s) \<noteq> []
     \<longleftrightarrow> (\<not> word_before (p, s)
          \<and> (\<exists>ws s1. ws \<noteq> [] \<and> list_all is_space ws \<and> s = ''def'' @ ws @ s1 \<and> name_at name s1))"
proof -
  let ?R = "Seq (Lit ''def'') (Seq (Plus Space) (Seq qualifier_rx tail))"
  have R: "rx_ends ?R (p, s) \<noteq> [] \<longleftrightarrow>
      (\<exists>ws s1. ws \<noteq> [] \<and> list_all is_space ws \<and> s = ''def'' @ ws @ s1 \<and> name_at name s1)"
    unfolding lit_seq_nonempty plus_seq_nonempty qualified_name_nonempty[of tail name, OF tail]
      in_class_space
    by blast
  have wa: "word_after (p, s)" if "rx_ends ?R (p, s) \<noteq> []"
  proof -
    from that obtain s' where "s = ''def'' @ s'" unfolding lit_seq_nonempty by blast
    then show ?thesis using d_is_word by (simp add: word_after_def)
  qed
  show ?thesis
    unfolding wordb_seq_nonempty using R wa by blast
qed

lemma word_before_after:
  "word_before (after None before, rest) \<longleftrightarrow> before \<noteq> [] \<and> is_word (last before)"
  by (simp add: word_before_def after_def)

lemma def_search_iff:
  assumes tail: "\<And>p s. rx_ends tail (p, s) \<noteq> [] \<longleftrightarrow> prefix name s"
  shows "re_search (Seq WordB (Seq (Lit ''def'') (Seq (Plus Space) (Seq qualifier_rx tail)))) line
     \<longleftrightarrow> def_pattern_occurs name line"
proof
  assume "re_search (Seq WordB (Seq (Lit ''def'') (Seq (Plus Space) (Seq qualifier_rx tail)))) line"
  then obtain before rest ws s1 where
      l: "line = before @ rest" and b: "\<not> (before \<noteq> [] \<and> is_word (last before))"
      and ws: "ws \<noteq> []" "list_all is_space ws" and r: "rest = ''def'' @ ws @ s1" and n: "name_at name s1"
    unfolding re_search_iff def_pattern_nonempty[of tail name, OF tail] word_before_after by blast
  from n obtain qualifier rest' where q: "s1 = qualifier @ name @ rest'"
      "qualifier = [] \<or> (\<exists>receiver. receiver \<noteq> [] \<and> list_all is_word receiver
                                   \<and> qualifier = receiver @ ''.'')"
    unfolding name_at_def by blast
  have "line = before @ ''def'' @ ws @ qualifier @ name @ [] @ rest'"
    using l r q(1) by simp
  with b ws q(2) show "def_pattern_occurs name line"
    unfolding def_pattern_occurs_def by blast
next
  assume "def_pattern_occurs name line"
  then obtain before ws qualifier trailing rest where
      l: "line = before @ ''def'' @ ws @ qualifier @ name @ trailing @ rest"
      and b: "before = [] \<or> \<not> is_word (last before)"
      and ws: "ws \<noteq> []" "list_all is_space ws"
      and q: "qualifier = [] \<or> (\<exists>receiver. receiver \<noteq> [] \<and> list_all is_word receiver
                                   \<and> qualifier = receiver @ ''.'')"
    unfolding def_pattern_occurs_def by blast
  have "qualifier @ name @ trailing @ rest = qualifier @ name @ (trailing @ rest)" by simp
  with q have n: "name_at name (qualifier @ name @ trailing @ rest)"
    unfolding name_at_def by blast
  have "line = before @ (''def'' @ ws @ qualifier @ name @ trailing @ rest)" using l by simp
  moreover have "\<not> (before \<noteq> [] \<and> is_word (last before))" using b by blast
  moreover have "''def'' @ ws @ qualifier @ name @ trailing @ rest
      = ''def'' @ ws @ (qualifier @ name @ trailing @ rest)" by simp
  ultimately show "re_search (Seq WordB (Seq (Lit ''def'') (Seq (Plus Space) (Seq qualifier_rx tail)))) line"
    unfolding re_search_iff def_pattern_nonempty[of tail name, OF tail] word_before_after
    using ws n by blast
qed

lemma not_class_or_module:
  "prefix ''def '' s \<Longrightarrow> \<not> prefix ''class '' s \<and> \<not> prefix ''module '' s"
  by (auto simp: prefix_def)

lemma last_split_on_free: "sep \<notin> set s \<Longrightarrow> last (split_on sep s) = s"
  by (simp add: split_on_free)

lemma occurs_delimitedI:
  "name_ends y \<Longrightarrow> occurs_delimited name (x @ name @ y)"
proof (induction x)
  case Nil
  show ?case
  proof (cases "name @ y")
    case Nil
    then show ?thesis by simp
  next
    case (Cons c cs)
    have "prefix name (name @ y)" by simp
    moreover have "name_ends (drop (length name) (name @ y))" using Nil.prems by simp
    ultimately have "occurs_delimited name (c # cs)" unfolding Cons by simp
    then show ?thesis using Cons by simp
  qed
next
  case (Cons c x)
  then show ?case by simp
qed

lemma defines_method_occurs:
  "defines_method name line \<Longrightarrow> occurs_delimited name line"
proof -
  assume "defines_method name line"
  then obtain before ws qualifier rest where
      l: "line = before @ ''def'' @ ws @ qualifier @ name @ rest" and e: "name_ends rest"
    unfolding defines_method_def by blast
  have "line = (before @ ''def'' @ ws @ qualifier) @ name @ rest" using l by simp
  with e show ?thesis using occurs_delimitedI by blast
qed

lemma soft_match_def_anchor:
  assumes "prefix ''def '' (py_strip a)"
  shows "soft_match_anchor raw a line =
     Inr (def_pattern_occurs (bare_method_name a) line
          \<or> (\<exists>x y. line = x @ (''def '' @ method_signature a) @ y))"
proof -
  let ?sig = "method_signature a" and ?name = "bare_method_name a"
  have name: "(if CHR ''.'' \<in> set ?sig then last (split_on CHR ''.'' ?sig) else ?sig) = ?name"
    by (simp add: bare_method_name_def last_split_on_free)
  have general: "re_search (seq_of [WordB, Lit ''def'', Plus Space, qualifier_rx,
                                     Lit ?name, Opt (OneOf ''?!='')]) line
      \<longleftrightarrow> def_pattern_occurs ?name line"
    using def_search_iff[of "Seq (Lit ?name) (Opt (OneOf ''?!=''))" ?name line, OF opt_tail_nonempty]
    by simp
  have brackets: "re_search (seq_of [WordB, Lit ''def'', Plus Space, qualifier_rx, Lit ''[]'']) line
      \<longleftrightarrow> def_pattern_occurs ''[]'' line"
    using def_search_iff[of "Lit ''[]''" "''[]''" line, OF lit_tail_nonempty]
    by simp
  have pat: "re_search (if ?name = ''[]''
                        then seq_of [WordB, Lit ''def'', Plus Space, qualifier_rx, Lit ''[]'']
                        else seq_of [WordB, Lit ''def'', Plus Space, qualifier_rx,
                                     Lit ?name, Opt (OneOf ''?!='')]) line
      \<longleftrightarrow> def_pattern_occurs ?name line"
  proof (cases "?name = ''[]''")
    case True
    then show ?thesis using brackets by (simp only: if_True refl)
  next
    case False
    then show ?thesis using general by (simp only: if_False)
  qed
  have "soft_match_anchor raw a line =
      (if re_search (if ?name = ''[]''
                        then seq_of [WordB, Lit ''def'', Plus Space, qualifier_rx, Lit ''[]'']
                        else seq_of [WordB, Lit ''def'', Plus Space, qualifier_rx,
                                     Lit ?name, Opt (OneOf ''?!='')]) line then Inr True
       else if py_in (''def '' @ ?sig) line then Inr True else Inr False)"
    using assms not_class_or_module[OF assms] name
    unfolding soft_match_anchor_def method_signature_def[symmetric] Let_def
    by (simp only: if_True if_False simp_thms)
  then show ?thesis
    unfolding pat py_in_iff by auto
qed

text \<open>
  Claim C7. The specification asks that an anchor \<^verbatim>\<open>def name\<close> soft-matches a line exactly
  when the line contains a definition of that bare method name (\<open>defines_method\<close>) or the
  signature as a contiguous piece. The code does not do that: its pattern has nothing after
  the name that ends it. The anchor \<^verbatim>\<open>def self.foo\<close> has the bare name \<^verbatim>\<open>foo\<close> and the
  signature \<^verbatim>\<open>self.foo\<close>; the line \<^verbatim>\<open>def foobar\<close> defines no method \<^verbatim>\<open>foo\<close> and does not
  contain \<^verbatim>\<open>def self.foo\<close>, and yet \<^verbatim>\<open>soft_match_anchor\<close> succeeds on it. In the file of the
  three lines \<^verbatim>\<open>def foobar\<close>, \<^verbatim>\<open>x = 1\<close>, \<^verbatim>\<open>def self.foo\<close> a directive for line 2 with that
  anchor is therefore resolved to the first line, not to the declaration on the third. The
  patterns for \<^verbatim>\<open>class\<close> and \<^verbatim>\<open>attr_reader\<close> do end the name: \<^verbatim>\<open>class Foo\<close> does not match
  \<^verbatim>\<open>class Foobar\<close>, nor \<^verbatim>\<open>attr_reader :foo\<close> the line \<^verbatim>\<open>attr_reader :foobar\<close>.
\<close>

theorem soft_match_name_not_ended:
  "bare_method_name ''def self.foo'' = ''foo''
   \<and> method_signature ''def self.foo'' = ''self.foo''
   \<and> soft_match_anchor no_raw_search ''def self.foo'' ''def foobar'' = Inr True
   \<and> \<not> defines_method ''foo'' ''def foobar''
   \<and> \<not> (\<exists>x y. ''def foobar'' = x @ (''def '' @ ''self.foo'') @ y)
   \<and> find_insertion_line no_raw_search [''def foobar'', ''x = 1'', ''def self.foo''] 2
         ''def self.foo'' {} = Inr (Some 0)
   \<and> soft_match_anchor no_raw_search ''class Foo'' ''class Foobar'' = Inr False
   \<and> soft_match_anchor no_raw_search ''attr_reader :foo'' ''attr_reader :foobar'' = Inr False"
proof -
  have "\<not> occurs_delimited ''foo'' ''def foobar''" by code_simp
  then have a: "\<not> defines_method ''foo'' ''def foobar''"
    using defines_method_occurs by blast
  have "\<not> py_in (''def '' @ ''self.foo'') ''def foobar''" by code_simp
  then have b: "\<not> (\<exists>x y. ''def foobar'' = x @ (''def '' @ ''self.foo'') @ y)"
    unfolding py_in_iff .
  have c: "bare_method_name ''def self.foo'' = ''foo''" by code_simp
  have d: "method_signature ''def self.foo'' = ''self.foo''" by code_simp
  have e: "soft_match_anchor no_raw_search ''def self.foo'' ''def foobar'' = Inr True" by code_simp
  have f: "find_insertion_line no_raw_search [''def foobar'', ''x = 1'', ''def self.foo''] 2
         ''def self.foo'' {} = Inr (Some 0)" by code_simp
  have g: "soft_match_anchor no_raw_search ''class Foo'' ''class Foobar'' = Inr False" by code_simp
  have h: "soft_match_anchor no_raw_search ''attr_reader :foo'' ''attr_reader :foobar'' = Inr False"
    by code_simp
  from a b c d e f g h show ?thesis by (intro conjI)
qed

subsection \<open>Anchor Resolver: drift\<close>

lemma search_order_foldl:
  "distinct xs \<Longrightarrow>
   foldl (\<lambda>order idx. if int idx \<noteq> e \<and> idx \<notin> set order then order @ [idx] else order) acc xs
     = acc @ filter (\<lambda>idx. int idx \<noteq> e \<and> idx \<notin> set acc) xs"
proof (induction xs arbitrary: acc)
  case Nil
  show ?case by simp
next
  case (Cons x xs)
  then have d: "distinct xs" and nx: "x \<notin> set xs" by simp_all
  show ?case
  proof (cases "int x \<noteq> e \<and> x \<notin> set acc")
    case True
    have "filter (\<lambda>idx. int idx \<noteq> e \<and> idx \<notin> set (acc @ [x])) xs
          = filter (\<lambda>idx. int idx \<noteq> e \<and> idx \<notin> set acc) xs"
      using nx by (intro filter_cong) auto
    with True Cons.IH[OF d, of "acc @ [x]"] show ?thesis by simp
  next
    case False
    with Cons.IH[OF d, of acc] show ?thesis by auto
  qed
qed

lemma search_order_eq:
  "search_order len e = nearby_indices len e
     @ filter (\<lambda>idx. int idx \<noteq> e \<and> idx \<notin> set (nearby_indices len e)) [0..<len]"
  unfolding search_order_def by (rule search_order_foldl) simp

lemma nearby_indices_other: "i \<in> set (nearby_indices len e) \<Longrightarrow> i < len \<and> int i \<noteq> e"
proof -
  assume "i \<in> set (nearby_indices len e)"
  then obtain x where x: "0 \<le> x \<and> x < int len" "i = nat x"
      "x \<in> set (map (\<lambda>offset. e + offset) (filter (\<lambda>offset. offset \<noteq> 0) [-5..5]))"
    unfolding nearby_indices_def set_map set_filter by blast
  from x(3) obtain off where "off \<noteq> 0" "x = e + off" unfolding set_map set_filter by blast
  with x(1,2) show ?thesis by auto
qed

lemma search_order_set: "set (search_order len e) = {i. i < len \<and> int i \<noteq> e}"
  unfolding search_order_eq using nearby_indices_other[of _ len e] by auto

lemma search_in_order_only:
  assumes only: "\<forall>i < length ls. soft_match_anchor raw a (ls ! i) = Inr (i = k)"
    and k: "k \<notin> claimed"
  shows "k \<in> set order \<Longrightarrow> \<forall>i \<in> set order. i < length ls
         \<Longrightarrow> search_in_order raw ls a claimed order = Inr (Some k)"
proof (induction order)
  case Nil
  then show ?case by simp
next
  case (Cons x order)
  from Cons.prems(2) have x: "x < length ls" by simp
  with only have sm: "soft_match_anchor raw a (ls ! x) = Inr (x = k)" by blast
  show ?case
  proof (cases "x = k")
    case True
    with sm k show ?thesis by simp
  next
    case False
    with Cons.prems have "k \<in> set order" "\<forall>i \<in> set order. i < length ls" by auto
    with Cons.IH have "search_in_order raw ls a claimed order = Inr (Some k)" by blast
    with False sm show ?thesis by simp
  qed
qed

lemma search_in_order_first:
  "search_in_order raw ls a claimed order = Inr (Some j) \<Longrightarrow>
     \<exists>earlier later. order = earlier @ j # later \<and> j \<notin> claimed
        \<and> soft_match_anchor raw a (ls ! j) = Inr True
        \<and> (\<forall>i\<in>set earlier. i \<in> claimed \<or> soft_match_anchor raw a (ls ! i) = Inr False)"
proof (induction order)
  case Nil
  then show ?case by simp
next
  case (Cons x order)
  show ?case
  proof (cases "x \<notin> claimed \<and> soft_match_anchor raw a (ls ! x) = Inr True")
    case True
    with Cons.prems have "j = x" by simp
    with True have "x # order = [] @ j # order \<and> j \<notin> claimed
        \<and> soft_match_anchor raw a (ls ! j) = Inr True
        \<and> (\<forall>i\<in>set []. i \<in> claimed \<or> soft_match_anchor raw a (ls ! i) = Inr False)"
      by simp
    then show ?thesis by blast
  next
    case False
    with Cons.prems have rest: "search_in_order raw ls a claimed order = Inr (Some j)"
      and skip: "x \<in> claimed \<or> soft_match_anchor raw a (ls ! x) = Inr False"
      by (auto split: if_splits sum.splits bool.splits)
    from Cons.IH[OF rest] obtain earlier later where
      e: "order = earlier @ j # later" "j \<notin> claimed" "soft_match_anchor raw a (ls ! j) = Inr True"
         "\<forall>i\<in>set earlier. i \<in> claimed \<or> soft_match_anchor raw a (ls ! i) = Inr False"
      by blast
    from e(1) have "x # order = (x # earlier) @ j # later" by simp
    moreover from e(4) skip
    have "\<forall>i\<in>set (x # earlier). i \<in> claimed \<or> soft_match_anchor raw a (ls ! i) = Inr False"
      by simp
    ultimately show ?thesis using e(2,3) by blast
  qed
qed

lemma find_insertion_line_drift:
  assumes res: "find_insertion_line raw ls n a claimed = Inr (Some j)" and j: "j \<noteq> nat (n - 1)"
  shows "search_in_order raw ls a claimed (search_order (length ls) (n - 1)) = Inr (Some j)"
  using res j unfolding find_insertion_line_def Let_def
  by (auto split: if_splits sum.splits bool.splits)

lemma def_foo_exact_is_soft:
  "py_in ''def foo'' line \<Longrightarrow> soft_match_anchor raw ''def foo'' line = Inr True"
proof -
  assume "py_in ''def foo'' line"
  then have c: "\<exists>x y. line = x @ (''def '' @ ''foo'') @ y" unfolding py_in_iff by simp
  have p: "prefix ''def '' (py_strip ''def foo'')" by code_simp
  have s: "method_signature ''def foo'' = ''foo''" by code_simp
  show ?thesis
    unfolding soft_match_def_anchor[OF p] s using c by blast
qed

lemma drift_found:
  assumes only: "\<forall>i < length ls. soft_match_anchor raw ''def foo'' (ls ! i) = Inr (i = k)"
    and k: "k < length ls" "k \<notin> claimed"
    and n: "1 \<le> n" "n \<le> int (length ls)" "nat (n - 1) \<notin> claimed"
  shows "find_insertion_line raw ls n ''def foo'' claimed = Inr (Some k)"
proof -
  let ?e = "nat (n - 1)"
  have e: "?e < length ls" using n(1,2) by auto
  have inb: "\<not> (n - 1 < 0 \<or> int (length ls) \<le> n - 1)" using n(1,2) by auto
  from only e have sm: "soft_match_anchor raw ''def foo'' (ls ! ?e) = Inr (?e = k)" by blast
  show ?thesis
  proof (cases "?e = k")
    case True
    with sm inb n(3) show ?thesis
      by (simp add: find_insertion_line_def Let_def)
  next
    case False
    with sm have f: "soft_match_anchor raw ''def foo'' (ls ! ?e) = Inr False" by simp
    then have nex: "\<not> py_in ''def foo'' (ls ! ?e)" using def_foo_exact_is_soft[of "ls ! ?e" raw] by auto
    have "int k \<noteq> n - 1" using False n(1) by auto
    with k(1) have "k \<in> set (search_order (length ls) (n - 1))" by (simp add: search_order_set)
    moreover have "\<forall>i \<in> set (search_order (length ls) (n - 1)). i < length ls"
      by (simp add: search_order_set)
    ultimately have "search_in_order raw ls ''def foo'' claimed (search_order (length ls) (n - 1))
        = Inr (Some k)"
      using search_in_order_only[OF only k(2)] by blast
    with f nex inb n(3) show ?thesis
      by (simp add: find_insertion_line_def Let_def)
  qed
qed

text \<open>
  Claim C6. Let index \<open>k\<close> be the only line of the buffer that soft-matches the anchor
  \<^verbatim>\<open>def foo\<close>, and let it be unclaimed. Then \<^verbatim>\<open>find_insertion_line\<close> returns \<open>k\<close> for every
  line number inside the file whose own index is unclaimed, whatever the offset: in a file
  of 200 lines with the declaration on line 11 (index 10), line number 8 (offset 3) and line
  number 61 (offset 50) both resolve to index 10. An index returned away from the expected
  one is the first entry of the search order that is unclaimed and soft-matches; the search
  order is the existing indices at offsets -5 to 5, then the rest of the file in its order.
\<close>

theorem drift_resolution:
  "((\<forall>i < length ls. soft_match_anchor raw ''def foo'' (ls ! i) = Inr (i = k))
      \<and> k < length ls \<and> k \<notin> claimed \<and> 1 \<le> n \<and> n \<le> int (length ls) \<and> nat (n - 1) \<notin> claimed
     \<longrightarrow> find_insertion_line raw ls n ''def foo'' claimed = Inr (Some k))
   \<and> (length ls = 200 \<and> (\<forall>i < length ls. soft_match_anchor raw ''def foo'' (ls ! i) = Inr (i = 10))
      \<and> 10 \<notin> claimed \<and> 7 \<notin> claimed
     \<longrightarrow> find_insertion_line raw ls 8 ''def foo'' claimed = Inr (Some 10))
   \<and> (length ls = 200 \<and> (\<forall>i < length ls. soft_match_anchor raw ''def foo'' (ls ! i) = Inr (i = 10))
      \<and> 10 \<notin> claimed \<and> 60 \<notin> claimed
     \<longrightarrow> find_insertion_line raw ls 61 ''def foo'' claimed = Inr (Some 10))
   \<and> (find_insertion_line raw ls n a claimed = Inr (Some j) \<and> j \<noteq> nat (n - 1)
     \<longrightarrow> (\<exists>earlier later. search_order (length ls) (n - 1) = earlier @ j # later
            \<and> j \<notin> claimed \<and> soft_match_anchor raw a (ls ! j) = Inr True
            \<and> (\<forall>i\<in>set earlier. i \<in> claimed \<or> soft_match_anchor raw a (ls ! i) = Inr False)))
   \<and> search_order len e = nearby_indices len e
        @ filter (\<lambda>idx. int idx \<noteq> e \<and> idx \<notin> set (nearby_indices len e)) [0..<len]"
proof -
  have 1: "find_insertion_line raw ls n ''def foo'' claimed = Inr (Some k)"
    if "(\<forall>i < length ls. soft_match_anchor raw ''def foo'' (ls ! i) = Inr (i = k))
      \<and> k < length ls \<and> k \<notin> claimed \<and> 1 \<le> n \<and> n \<le> int (length ls) \<and> nat (n - 1) \<notin> claimed"
    using that drift_found[of ls raw k claimed n] by blast
  have 2: "find_insertion_line raw ls 8 ''def foo'' claimed = Inr (Some 10)"
    if "length ls = 200 \<and> (\<forall>i < length ls. soft_match_anchor raw ''def foo'' (ls ! i) = Inr (i = 10))
      \<and> 10 \<notin> claimed \<and> 7 \<notin> claimed"
    using that drift_found[of ls raw 10 claimed 8] by simp
  have 3: "find_insertion_line raw ls 61 ''def foo'' claimed = Inr (Some 10)"
    if "length ls = 200 \<and> (\<forall>i < length ls. soft_match_anchor raw ''def foo'' (ls ! i) = Inr (i = 10))
      \<and> 10 \<notin> claimed \<and> 60 \<notin> claimed"
    using that drift_found[of ls raw 10 claimed 61] by simp
  have 4: "\<exists>earlier later. search_order (length ls) (n - 1) = earlier @ j # later
            \<and> j \<notin> claimed \<and> soft_match_anchor raw a (ls ! j) = Inr True
            \<and> (\<forall>i\<in>set earlier. i \<in> claimed \<or> soft_match_anchor raw a (ls ! i) = Inr False)"
    if "find_insertion_line raw ls n a claimed = Inr (Some j) \<and> j \<noteq> nat (n - 1)"
    using that find_insertion_line_drift[of raw ls n a claimed j] search_in_order_first by blast
  from 1 2 3 4 search_order_eq[of len e] show ?thesis by blast
qed

lemma drift_file_only:
  "\<forall>i < length drift_file. soft_match_anchor no_raw_search ''def foo'' (drift_file ! i) = Inr (i = 10)"
proof (intro allI impI)
  fix i assume "i < length drift_file"
  then have i: "i < 200" by (simp add: drift_file_def)
  have a: "soft_match_anchor no_raw_search ''def foo'' ''x = 1'' = Inr False" by code_simp
  have b: "soft_match_anchor no_raw_search ''def foo'' ''  def foo(a)'' = Inr True" by code_simp
  consider "i < 10" | "i = 10" | "10 < i"  by linarith
  then show "soft_match_anchor no_raw_search ''def foo'' (drift_file ! i) = Inr (i = 10)"
  proof cases
    case 1
    then have "drift_file ! i = ''x = 1''" by (simp add: drift_file_def nth_append)
    with a 1 show ?thesis by simp
  next
    case 2
    then have "drift_file ! i = ''  def foo(a)''" by (simp add: drift_file_def nth_append)
    with b 2 show ?thesis by simp
  next
    case 3
    then have "drift_file ! i = ''x = 1''" using i by (simp add: drift_file_def nth_append nth_Cons')
    with a 3 show ?thesis by simp
  qed
qed

text \<open>Scenario B on \<open>drift_file\<close>, and the search order of a file of 20 lines around index 7.\<close>

theorem drift_resolution_witness:
  "length drift_file = 200
   \<and> find_insertion_line no_raw_search drift_file 8 ''def foo'' {} = Inr (Some 10)
   \<and> find_insertion_line no_raw_search drift_file 61 ''def foo'' {} = Inr (Some 10)
   \<and> search_order 20 7 = [2, 3, 4, 5, 6, 8, 9, 10, 11, 12] @ [0, 1] @ [13, 14, 15, 16, 17, 18, 19]"
proof -
  have l: "length drift_file = 200" by (simp add: drift_file_def)
  have h8: "length drift_file = 200
      \<and> (\<forall>i < length drift_file. soft_match_anchor no_raw_search ''def foo'' (drift_file ! i) = Inr (i = 10))
      \<and> 10 \<notin> ({} :: nat set) \<and> 7 \<notin> ({} :: nat set)"
    by (intro conjI l drift_file_only) simp_all
  have h61: "length drift_file = 200
      \<and> (\<forall>i < length drift_file. soft_match_anchor no_raw_search ''def foo'' (drift_file ! i) = Inr (i = 10))
      \<and> 10 \<notin> ({} :: nat set) \<and> 60 \<notin> ({} :: nat set)"
    by (intro conjI l drift_file_only) simp_all
  note t = drift_resolution[where ls=drift_file and raw=no_raw_search and claimed="{}"]
  have a: "find_insertion_line no_raw_search drift_file 8 ''def foo'' {} = Inr (Some 10)"
    by (rule t[THEN conjunct2, THEN conjunct1, THEN mp, OF h8])
  have b: "find_insertion_line no_raw_search drift_file 61 ''def foo'' {} = Inr (Some 10)"
    by (rule t[THEN conjunct2, THEN conjunct2, THEN conjunct1, THEN mp, OF h61])
  have c: "search_order 20 7 = [2, 3, 4, 5, 6, 8, 9, 10, 11, 12] @ [0, 1] @ [13, 14, 15, 16, 17, 18, 19]"
    by code_simp
  from l a b c show ?thesis by (intro conjI)
qed


end
